theory Spec2Isabelle
  imports Main "HOL-Library.Word" "HOL-Library.Multiset"
begin

unbundle bit_operations_syntax

section \<open>Data model\<close>

text \<open>
  Buffers of \<open>unsigned char\<close> are lists of 8-bit words; text read from the input stream is a
  \<open>string\<close>, whose characters are bytes as well. The derivation scheme is fixed when the
  program is compiled (\<open>BRAINWALLET\<close>, \<open>WARPWALLET\<close> or \<open>HEXWALLET\<close>), so it is a
  parameter of the model.
\<close>

type_synonym byte = "8 word"

datatype mode = Brainwallet | Warpwallet | Hexwallet

datatype error = OutOfBounds

abbreviation NUL :: char where
  "NUL \<equiv> CHR 0x00"

abbreviation NL :: char where
  "NL \<equiv> CHR 0x0A"

text \<open>
  The libraries the program links against are parameters: the two digests, the key
  stretching function, the curve library and the Bloom filter. The curve library's
  \<open>secp256k1_ecdsa_pubkey_create\<close> returns the encoded key, or \<open>None\<close> where the C
  function returns 0 and leaves the output buffer alone. \<open>bloom_open\<close> maps the path of the
  filter file to the membership test that \<open>bloom_chk_hash160\<close> performs on it.
  \<open>omp_get_max_threads\<close> is the size of the worker pool, and \<open>uninit_pubkey\<close> is whatever
  the 96 bytes of a worker's \<open>pubkey\<close> array hold before the first key is written to it.
\<close>

record collab =
  SHA256 :: "byte list \<Rightarrow> byte list"
  RIPEMD160 :: "byte list \<Rightarrow> byte list"
  warpwallet :: "byte list \<Rightarrow> byte list"
  secp256k1_ecdsa_pubkey_create :: "byte list \<Rightarrow> byte list option"
  bloom_open :: "string \<Rightarrow> byte list \<Rightarrow> bool"
  omp_get_max_threads :: nat
  uninit_pubkey :: "byte list"

section \<open>Deriving the secret\<close>

text \<open>\<open>write_at buf off bs\<close> is the buffer after \<open>bs\<close> has been stored at \<open>&buf[off]\<close>.\<close>

definition write_at :: "'a list \<Rightarrow> nat \<Rightarrow> 'a list \<Rightarrow> 'a list" where
  "write_at buf off bs = take off buf @ bs @ drop (off + length bs) buf"

text \<open>
  Modelled from the spec: \<open>hex_to_bytes\<close> is declared in a header that is not part of the
  sources at hand. The specification and the comment in \<open>make_secret\<close> say that the
  characters are ASCII hex digits without a leading marker, that \<open>ceil(length / 2)\<close> bytes
  are produced, and that with an odd number of digits the first digit alone makes the first
  byte (\<open>0x123\<close> gives \<open>0x01\<close>, \<open>0x23\<close>). What a character that is no hex digit decodes to
  is left open there; \<open>hex_digit\<close> gives it the value 0.
\<close>

definition hex_digit :: "char \<Rightarrow> byte" where
  "hex_digit c =
     (let n = (of_char c :: nat)
      in if 48 \<le> n \<and> n \<le> 57 then of_nat (n - 48)
         else if 97 \<le> n \<and> n \<le> 102 then of_nat (n - 87)
         else if 65 \<le> n \<and> n \<le> 70 then of_nat (n - 55)
         else 0)"

fun hex_pairs :: "string \<Rightarrow> byte list" where
  "hex_pairs (a # b # cs) = (push_bit 4 (hex_digit a) OR hex_digit b) # hex_pairs cs"
| "hex_pairs cs = []"

definition hex_to_bytes :: "string \<Rightarrow> nat \<Rightarrow> byte list" where
  "hex_to_bytes input_str input_len =
     (let digits = take input_len input_str
      in if odd (length digits) then hex_digit (hd digits) # hex_pairs (tl digits)
         else hex_pairs digits)"

text \<open>
  \<open>make_secret\<close> reads \<open>input_len\<close> bytes at \<open>input_str\<close> and fills the 32 bytes of
  \<open>output_str\<close>, which is the result here. \<open>input_len\<close> is a C \<open>int\<close>: a negative value
  turns into a huge \<open>size_t\<close>, and a length beyond the buffer reads past its end; both are
  the error \<open>OutOfBounds\<close>. In Hex mode the length is clamped to 64 before anything is read,
  and the pointer handed to \<open>hex_to_bytes\<close> is still \<open>input_str\<close> itself.
\<close>

definition make_secret :: "collab \<Rightarrow> mode \<Rightarrow> string \<Rightarrow> int \<Rightarrow> error + byte list" where
  "make_secret ext m input_str input_len =
     (case m of
        Brainwallet \<Rightarrow>
          if input_len < 0 \<or> int (length input_str) < input_len then Inl OutOfBounds
          else Inr (SHA256 ext (map of_char (take (nat input_len) input_str)))
      | Warpwallet \<Rightarrow>
          if input_len < 0 \<or> int (length input_str) < input_len then Inl OutOfBounds
          else Inr (warpwallet ext (map of_char (take (nat input_len) input_str)))
      | Hexwallet \<Rightarrow>
          (let output_str = replicate 32 (0 :: byte);
               input_len = (if input_len > 2 * 32 then 2 * 32 else input_len);
               byte_count = nat ((input_len + 1) div 2)
           in if input_len < 0 \<or> int (length input_str) < input_len then Inl OutOfBounds
              else Inr (write_at output_str (32 - byte_count)
                          (hex_to_bytes input_str (nat input_len)))))"

section \<open>One pass of the worker loop\<close>

text \<open>
  \<open>display\<close> prints one line for a hit. Which fields it prints is chosen when the program
  is compiled, and the text encoders it calls are libraries; the model keeps its four
  arguments. \<open>input_word\<close> is printed with \<open>%s\<close>, so it ends at the first NUL byte.
\<close>

record match_record =
  input_word :: string
  privkey_secret :: "byte list"
  pubkey_hash :: "byte list"
  compressed :: int

definition strlen :: "string \<Rightarrow> nat" where
  "strlen buf = length (takeWhile (\<lambda>c. c \<noteq> NUL) buf)"

definition display :: "string \<Rightarrow> byte list \<Rightarrow> byte list \<Rightarrow> int \<Rightarrow> match_record" where
  "display word secret hash160 compr =
     \<lparr>input_word = take (strlen word) word, privkey_secret = secret,
      pubkey_hash = hash160, compressed = compr\<rparr>"

text \<open>
  Lines 182 to 184 of \<open>main\<close>. \<open>getline\<close> leaves the line and a terminating NUL in
  \<open>cur_line\<close>; the buffer is taken to be exactly that long. The inner \<open>cur_line_len\<close> is an
  \<open>unsigned int\<close>: it is \<open>strlen(cur_line)\<close> modulo \<open>2^32\<close>, decremented with wrap-around,
  and the byte at that index is overwritten with NUL. An index outside the buffer (a line
  that starts with a NUL byte has \<open>strlen\<close> 0 and index \<open>2^32 - 1\<close>) is \<open>OutOfBounds\<close>.
  The result is the buffer and the length handed to \<open>make_secret\<close>.
\<close>

definition trim_line :: "string \<Rightarrow> error + (string \<times> 32 word)" where
  "trim_line line =
     (let cur_line = line @ [NUL];
          cur_line_len = (word_of_nat (strlen cur_line) :: 32 word) - 1
      in if unat cur_line_len < length cur_line
         then Inr (cur_line[unat cur_line_len := NUL], cur_line_len)
         else Inl OutOfBounds)"

text \<open>
  Lines 189 to 218: everything a pass computes from the trimmed line. \<open>it_pubkey\<close> is the
  worker's \<open>pubkey\<close> array when the pass ends, \<open>it_uncompressed\<close> and \<open>it_compressed\<close> are
  the 65 and 33 bytes given to \<open>SHA256\<close>, and \<open>it_reported\<close> are the calls of \<open>display\<close>.
  The value \<open>secp256k1_ecdsa_pubkey_create\<close> returns is not looked at: when it fails, the
  array still holds what the pass before left in it. The \<open>unsigned int\<close> length becomes
  the \<open>int\<close> parameter of \<open>make_secret\<close>.
\<close>

record iteration =
  it_secret :: "byte list"
  it_pubkey :: "byte list"
  it_uncompressed :: "byte list"
  it_hash160_uncomp :: "byte list"
  it_compressed :: "byte list"
  it_hash160_comp :: "byte list"
  it_reported :: "match_record list"

definition pipeline ::
  "collab \<Rightarrow> (byte list \<Rightarrow> bool) \<Rightarrow> mode \<Rightarrow> byte list \<Rightarrow> string \<Rightarrow> 32 word \<Rightarrow> error + iteration"
where
  "pipeline ext bloom m pubkey cur_line cur_line_len =
     (case make_secret ext m cur_line (sint cur_line_len) of
        Inl e \<Rightarrow> Inl e
      | Inr secret \<Rightarrow>
          (let pubkey1 = (case secp256k1_ecdsa_pubkey_create ext secret of
                            None \<Rightarrow> pubkey
                          | Some key \<Rightarrow> write_at pubkey 0 key);
               uncompressed = take 65 pubkey1;
               hash160_uncomp = RIPEMD160 ext (SHA256 ext uncompressed);
               pubkey2 = pubkey1[0 := 0x02 OR (pubkey1 ! 64 AND 0x01)];
               compressed_key = take 33 pubkey2;
               hash160_comp = RIPEMD160 ext (SHA256 ext compressed_key)
           in Inr \<lparr>it_secret = secret, it_pubkey = pubkey2,
                    it_uncompressed = uncompressed, it_hash160_uncomp = hash160_uncomp,
                    it_compressed = compressed_key, it_hash160_comp = hash160_comp,
                    it_reported =
                      (if bloom hash160_uncomp
                       then [display cur_line secret hash160_uncomp 0] else []) @
                      (if bloom hash160_comp
                       then [display cur_line secret hash160_comp 1] else [])\<rparr>))"

definition loop_body ::
  "collab \<Rightarrow> (byte list \<Rightarrow> bool) \<Rightarrow> mode \<Rightarrow> byte list \<Rightarrow> string \<Rightarrow> error + iteration"
where
  "loop_body ext bloom m pubkey line =
     (case trim_line line of
        Inl e \<Rightarrow> Inl e
      | Inr (cur_line, cur_line_len) \<Rightarrow> pipeline ext bloom m pubkey cur_line cur_line_len)"

section \<open>The input stream and the worker pool\<close>

text \<open>
  \<open>getline\<close> takes the bytes up to and including the next newline, or what is left when
  there is none; at the end of the stream it returns \<open>-1\<close>, which is \<open>None\<close> here.
  \<open>lines_of\<close> cuts a whole stream into the lines it holds.
\<close>

definition getline :: "string \<Rightarrow> (string \<times> string) option" where
  "getline inp =
     (if inp = [] then None
      else (case dropWhile (\<lambda>c. c \<noteq> NL) inp of
              [] \<Rightarrow> Some (inp, [])
            | nl # rest \<Rightarrow> Some (takeWhile (\<lambda>c. c \<noteq> NL) inp @ [nl], rest)))"

fun lines_of :: "string \<Rightarrow> string list" where
  "lines_of [] = []"
| "lines_of (c # cs) =
     (if c = NL then [c] # lines_of cs
      else (case lines_of cs of [] \<Rightarrow> [[c]] | l # ls \<Rightarrow> (c # l) # ls))"

text \<open>
  A worker is at the top of its loop (\<open>AtTop\<close>), has left the \<open>getline\<close> critical section
  with a line or with the end of the stream (\<open>Got\<close>), has passed the check of line 179 and
  is working on a line (\<open>Busy\<close>), has left the loop (\<open>Stopped\<close>), or has added its counter
  to \<open>line_count\<close> (\<open>Done\<close>). The counters are \<open>unsigned int\<close>.
\<close>

datatype phase = AtTop | Got "string option" | Busy string | Stopped | Done

record worker =
  phase :: phase
  my_line_count :: "32 word"
  pubkey :: "byte list"

text \<open>
  The shared state of the parallel region. \<open>claimed\<close> and \<open>processed\<close> are not variables of
  the program: they log which worker took which line out of the stream, and which worker
  finished the pass over which line. \<open>crashed\<close> is set when a pass runs out of bounds;
  nothing is modelled after that.
\<close>

record state =
  stdin_rest :: string
  signal_break :: int
  line_count :: "32 word"
  workers :: "worker list"
  stdout_log :: "match_record list"
  crashed :: "error option"
  claimed :: "(nat \<times> string) list"
  processed :: "(nat \<times> string) list"

text \<open>
  One step of worker \<open>i\<close>. The comparison \<open>cur_line_len == -1\<close> of line 179 is made on the
  \<open>unsigned int\<close> that received what \<open>getline\<close> returned, so a line whose length is
  \<open>2^32 - 1\<close> modulo \<open>2^32\<close> ends the loop as the end of the stream does. The two calls of
  \<open>display\<close> of one pass are logged together.
\<close>

definition worker_step ::
  "collab \<Rightarrow> (byte list \<Rightarrow> bool) \<Rightarrow> mode \<Rightarrow> nat \<Rightarrow> state \<Rightarrow> state"
where
  "worker_step ext bloom m i s =
     (let w = workers s ! i
      in case phase w of
           AtTop \<Rightarrow>
             (case getline (stdin_rest s) of
                None \<Rightarrow> s\<lparr>workers := (workers s)[i := w\<lparr>phase := Got None\<rparr>]\<rparr>
              | Some (l, rest) \<Rightarrow>
                  s\<lparr>stdin_rest := rest,
                    workers := (workers s)[i := w\<lparr>phase := Got (Some l)\<rparr>],
                    claimed := claimed s @ [(i, l)]\<rparr>)
         | Got None \<Rightarrow> s\<lparr>workers := (workers s)[i := w\<lparr>phase := Stopped\<rparr>]\<rparr>
         | Got (Some l) \<Rightarrow>
             (if (word_of_nat (length l) :: 32 word) = - 1 \<or> signal_break s \<noteq> 0
              then s\<lparr>workers := (workers s)[i := w\<lparr>phase := Stopped\<rparr>]\<rparr>
              else s\<lparr>workers :=
                       (workers s)[i := w\<lparr>phase := Busy l,
                                          my_line_count := my_line_count w + 1\<rparr>]\<rparr>)
         | Busy l \<Rightarrow>
             (case loop_body ext bloom m (pubkey w) l of
                Inl e \<Rightarrow> s\<lparr>crashed := Some e\<rparr>
              | Inr it \<Rightarrow>
                  s\<lparr>workers := (workers s)[i := w\<lparr>phase := AtTop, pubkey := it_pubkey it\<rparr>],
                    stdout_log := stdout_log s @ it_reported it,
                    processed := processed s @ [(i, l)]\<rparr>)
         | Stopped \<Rightarrow>
             s\<lparr>line_count := line_count s + my_line_count w,
               workers := (workers s)[i := w\<lparr>phase := Done\<rparr>]\<rparr>
         | Done \<Rightarrow> s)"

text \<open>
  What can happen next: SIGINT arrives and \<open>signal_handle\<close> stores its number, 2, in
  \<open>signal_break\<close>, or one of the workers takes its next step. A run of the parallel region
  is a list of such events.
\<close>

datatype event = Sigint | Run nat

definition step :: "collab \<Rightarrow> (byte list \<Rightarrow> bool) \<Rightarrow> mode \<Rightarrow> event \<Rightarrow> state \<Rightarrow> state" where
  "step ext bloom m e s =
     (case e of
        Sigint \<Rightarrow> s\<lparr>signal_break := 2\<rparr>
      | Run i \<Rightarrow>
          if crashed s = None \<and> i < length (workers s) then worker_step ext bloom m i s
          else s)"

definition exec ::
  "collab \<Rightarrow> (byte list \<Rightarrow> bool) \<Rightarrow> mode \<Rightarrow> event list \<Rightarrow> state \<Rightarrow> state"
where
  "exec ext bloom m sched s = fold (step ext bloom m) sched s"

text \<open>The lines that workers hold in a given phase, each with the index of its worker.\<close>

definition in_flight :: "worker list \<Rightarrow> (nat \<times> string) list" where
  "in_flight ws =
     concat (map (\<lambda>(i, w). case phase w of Busy l \<Rightarrow> [(i, l)] | _ \<Rightarrow> [])
               (enumerate 0 ws))"

definition fetched :: "worker list \<Rightarrow> (nat \<times> string) list" where
  "fetched ws =
     concat (map (\<lambda>(i, w). case phase w of Got (Some l) \<Rightarrow> [(i, l)] | _ \<Rightarrow> [])
               (enumerate 0 ws))"

definition all_done :: "worker list \<Rightarrow> bool" where
  "all_done ws = list_all (\<lambda>w. phase w = Done) ws"


definition pending_count :: "worker list \<Rightarrow> 32 word" where
  "pending_count ws =
     sum_list (map (\<lambda>w. if phase w = Done then 0 else my_line_count w) ws)"


definition busy_line :: "nat \<times> worker \<Rightarrow> (nat \<times> string) list" where
  "busy_line = (\<lambda>(i, w). case phase w of Busy l \<Rightarrow> [(i, l)] | _ \<Rightarrow> [])"

definition got_line :: "nat \<times> worker \<Rightarrow> (nat \<times> string) list" where
  "got_line = (\<lambda>(i, w). case phase w of Got (Some l) \<Rightarrow> [(i, l)] | _ \<Rightarrow> [])"

text \<open>
  For the proofs about runs without a signal: a worker that has seen the end of the
  stream, and what holds in every state of such a run that starts with the input \<open>inp\<close>.
\<close>

fun ended :: "phase \<Rightarrow> bool" where
  "ended (Got None) = True"
| "ended Stopped = True"
| "ended Done = True"
| "ended ph = False"

definition once_inv :: "string \<Rightarrow> state \<Rightarrow> bool" where
  "once_inv inp t \<longleftrightarrow>
     signal_break t = 0
     \<and> map snd (claimed t) @ lines_of (stdin_rest t) = lines_of inp
     \<and> mset (claimed t) =
         mset (processed t) + mset (in_flight (workers t)) + mset (fetched (workers t))
     \<and> line_count t + pending_count (workers t) =
         word_of_nat (length (processed t) + length (in_flight (workers t)))
     \<and> ((\<exists>w \<in> set (workers t). ended (phase w)) \<longrightarrow> stdin_rest t = [])"

text \<open>
  For the proofs about shutdown: whether the pass over a line stays in bounds (lines 182 to
  189; nothing after \<open>make_secret\<close> can fail), a state in which the signal has been seen,
  nothing has run out of bounds and every pass under way stays in bounds, and how many
  steps a worker is away from \<open>Done\<close> once the signal has been seen.
\<close>

definition passes :: "collab \<Rightarrow> mode \<Rightarrow> string \<Rightarrow> bool" where
  "passes ext m line =
     (case trim_line line of
        Inl e \<Rightarrow> False
      | Inr (cur_line, cur_line_len) \<Rightarrow>
          (case make_secret ext m cur_line (sint cur_line_len) of
             Inl e \<Rightarrow> False
           | Inr secret \<Rightarrow> True))"




section \<open>The program\<close>

text \<open>
  What \<open>main\<close> writes to \<open>stderr\<close> before the parallel region, and how a run ends: with an
  exit status, out of bounds, or (when the list of events stops early) with workers that
  are still running. \<open>argc\<close> is the length of \<open>argv\<close>.
\<close>

datatype diagnostic =
    Loading_bloom_filter string
  | Bloom_filter_loaded
  | Incorrect_number_of_arguments int
  | Usage "string option"
  | Using_attack_mode mode
  | Spawning_threads nat

datatype ending = Exit int | Crash error | Running

record outcome =
  exit_status :: ending
  stderr_log :: "diagnostic list"
  final :: state

definition initial :: "collab \<Rightarrow> string \<Rightarrow> nat \<Rightarrow> state" where
  "initial ext inp n =
     \<lparr>stdin_rest = inp, signal_break = 0, line_count = 0,
      workers = replicate n
        \<lparr>phase = AtTop, my_line_count = 0,
         pubkey = take 96 (uninit_pubkey ext @ replicate 96 0)\<rparr>,
      stdout_log = [], crashed = None, claimed = [], processed = []\<rparr>"

definition main :: "collab \<Rightarrow> mode \<Rightarrow> string list \<Rightarrow> string \<Rightarrow> event list \<Rightarrow> outcome" where
  "main ext m argv inp sched =
     (if int (length argv) = 2
      then
        (let bloom = bloom_open ext (argv ! 1);
             s = exec ext bloom m sched (initial ext inp (omp_get_max_threads ext))
         in \<lparr>exit_status =
                (case crashed s of
                   Some e \<Rightarrow> Crash e
                 | None \<Rightarrow> if all_done (workers s) then Exit 0 else Running),
              stderr_log =
                [Loading_bloom_filter (argv ! 1), Bloom_filter_loaded,
                 Using_attack_mode m, Spawning_threads (omp_get_max_threads ext)],
              final = s\<rparr>)
      else
        \<lparr>exit_status = Exit 1,
         stderr_log =
           [Incorrect_number_of_arguments (int (length argv)),
            Usage (case argv of [] \<Rightarrow> None | a # _ \<Rightarrow> Some a)],
         final = initial ext inp 0\<rparr>)"

text \<open>
  Stand-ins for the libraries, to run the model on concrete inputs: a digest that keeps the
  length and the first bytes of its input, a curve library that rejects the zero scalar and
  encodes any other as \<open>0x04\<close>, the scalar, the scalar, and a filter file \<open>''one''\<close> that
  holds the hash of the compressed key of the scalar 1.
\<close>

definition test_collab :: collab where
  "test_collab =
     \<lparr>SHA256 = (\<lambda>bs. of_nat (length bs) # take 31 (bs @ replicate 31 0)),
      RIPEMD160 = take 20,
      warpwallet = (\<lambda>bs. take 32 (bs @ replicate 32 1)),
      secp256k1_ecdsa_pubkey_create =
        (\<lambda>k. if k = replicate 32 0 then None else Some (0x04 # k @ k)),
      bloom_open = (\<lambda>path h. path = ''one'' \<and> h = 33 # 3 # replicate 18 0),
      omp_get_max_threads = 2,
      uninit_pubkey = replicate 96 0\<rparr>"

section \<open>Hex mode\<close>

lemma length_hex_pairs: "length (hex_pairs cs) = length cs div 2"
  by (induction cs rule: hex_pairs.induct) simp_all

lemma length_hex_to_bytes:
  "n \<le> length s \<Longrightarrow> length (hex_to_bytes s n) = (n + 1) div 2"
proof -
  assume n: "n \<le> length s"
  show ?thesis
  proof (cases "odd n")
    case True
    then obtain k where k: "n = 2 * k + 1" by (auto elim: oddE)
    with n show ?thesis
      by (simp add: hex_to_bytes_def Let_def length_hex_pairs min_def)
  next
    case False
    with n show ?thesis
      by (simp add: hex_to_bytes_def Let_def length_hex_pairs min_def)
  qed
qed

lemma hex_to_bytes_take:
  "n \<le> k \<Longrightarrow> hex_to_bytes (take k s) n = hex_to_bytes s n"
  by (simp add: hex_to_bytes_def min_def)

lemma write_at_tail:
  "off + length bs = length buf \<Longrightarrow> write_at buf off bs = take off buf @ bs"
  by (simp add: write_at_def)

text \<open>
  C6. In Hex mode the 32 bytes of the secret are zero except for the tail, which holds the
  decoded digits: with \<open>k\<close> digits read (all \<open>n\<close> of them, or 64 when there are more),
  \<open>ceil(k / 2)\<close> bytes are decoded and stored at the end of the buffer, after
  \<open>32 - ceil(k / 2)\<close> zero bytes. The four digits \<open>1234\<close> give 30 zero bytes, then
  \<open>0x12\<close> and \<open>0x34\<close>.
\<close>

theorem hex_right_justified:
  assumes "n \<le> length s"
  shows "make_secret ext Hexwallet s (int n) =
           Inr (replicate (32 - (min n 64 + 1) div 2) 0 @ hex_to_bytes s (min n 64))
       \<and> length (hex_to_bytes s (min n 64)) = (min n 64 + 1) div 2
       \<and> make_secret ext Hexwallet ''1234'' 4 = Inr (replicate 30 0 @ [0x12, 0x34])"
proof (intro conjI)
  let ?k = "min n 64"
  have k: "?k \<le> length s" "?k \<le> 64" using assms by simp_all
  show len: "length (hex_to_bytes s ?k) = (?k + 1) div 2"
    using k(1) by (rule length_hex_to_bytes)
  have bc: "(?k + 1) div 2 \<le> 32" using k(2) by simp
  have "write_at (replicate 32 (0 :: byte)) (32 - (?k + 1) div 2) (hex_to_bytes s ?k)
        = replicate (32 - (?k + 1) div 2) 0 @ hex_to_bytes s ?k"
    using bc len by (simp add: write_at_tail)
  moreover have "nat ((int ?k + 1) div 2) = (?k + 1) div 2"
    by (simp add: nat_div_distrib nat_add_distrib)
  ultimately show "make_secret ext Hexwallet s (int n) =
           Inr (replicate (32 - (min n 64 + 1) div 2) 0 @ hex_to_bytes s (min n 64))"
    using assms by (auto simp add: make_secret_def Let_def min_def)
  show "make_secret ext Hexwallet ''1234'' 4 = Inr (replicate 30 0 @ [0x12, 0x34])"
    by (simp add: make_secret_def hex_to_bytes_def hex_digit_def write_at_def Let_def)
qed

theorem hex_right_justified_witness:
  "make_secret test_collab Hexwallet ''123'' 3 = Inr (replicate 30 0 @ [0x01, 0x23])"
  using hex_right_justified [of 3 "''123''" test_collab]
  by (simp add: hex_to_bytes_def hex_digit_def)

text \<open>
  C1, as the code has it. A candidate of more than 64 hex digits is cut to its first 64
  digits: the length is clamped, the pointer is not moved, so the secret is the decoding of
  the first 64 characters and the characters after them are never read.
\<close>

theorem hex_clamp_keeps_first_64:
  assumes "64 < n" and "n \<le> length s"
  shows "make_secret ext Hexwallet s (int n) = Inr (hex_to_bytes (take 64 s) 64)"
proof -
  have "length (hex_to_bytes s 64) = 32"
    using assms by (simp add: length_hex_to_bytes)
  then have "write_at (replicate 32 (0 :: byte)) 0 (hex_to_bytes s 64) = hex_to_bytes s 64"
    by (simp add: write_at_def)
  then show ?thesis
    using assms by (simp add: make_secret_def Let_def hex_to_bytes_take)
qed

theorem hex_clamp_keeps_first_64_witness:
  "make_secret test_collab Hexwallet
       ''10000000000000000000000000000000000000000000000000000000000000002'' 65
   = Inr [16, 0, 0, 0, 0, 0, 0, 0, 0, 0, 0, 0, 0, 0, 0, 0,
          0, 0, 0, 0, 0, 0, 0, 0, 0, 0, 0, 0, 0, 0, 0, 0]"
  using hex_clamp_keeps_first_64 [of 65
      "''10000000000000000000000000000000000000000000000000000000000000002''" test_collab]
  by (simp add: hex_to_bytes_def hex_digit_def)

text \<open>
  C1 as it is stated fails: two candidates of 65 digits with the same last 64 digits, a
  \<open>1\<close> or a \<open>2\<close> followed by 64 zeros, have different secrets.
\<close>

theorem hex_clamp_counterexample:
  "drop (65 - 64) ''10000000000000000000000000000000000000000000000000000000000000000''
     = drop (65 - 64) ''20000000000000000000000000000000000000000000000000000000000000000''
   \<and> make_secret test_collab Hexwallet
       ''10000000000000000000000000000000000000000000000000000000000000000'' 65
     \<noteq> make_secret test_collab Hexwallet
       ''20000000000000000000000000000000000000000000000000000000000000000'' 65"
  by (simp add: make_secret_def hex_to_bytes_def hex_digit_def write_at_def Let_def)

section \<open>Keys and hashes\<close>

lemma prefix_byte: "(0x02 :: byte) OR (x AND 0x01) = (if even x then 0x02 else 0x03)"
  by (simp add: and_one_eq mod_2_eq_odd)

lemma take_write_at_0: "take (length bs) (write_at buf 0 bs) = bs"
  by (simp add: write_at_def)

lemma nth_write_at_0: "i < length bs \<Longrightarrow> write_at buf 0 bs ! i = bs ! i"
  by (simp add: write_at_def nth_append)

lemma take_update_write_at_0:
  assumes "n \<le> length bs"
  shows "take n ((write_at buf 0 bs)[0 := b]) = take n (bs[0 := b])"
proof -
  have "take n ((write_at buf 0 bs)[0 := b]) = take n ((bs @ drop (length bs) buf)[0 := b])"
    by (simp add: write_at_def)
  also have "\<dots> = take n (bs[0 := b] @ drop (length bs) buf)"
    using assms by (cases bs) simp_all
  also have "\<dots> = take n (bs[0 := b])"
    using assms by simp
  finally show ?thesis .
qed

lemma pipeline_valid_key:
  assumes "make_secret ext m cur_line (sint len) = Inr secret"
      and "secp256k1_ecdsa_pubkey_create ext secret = Some key"
      and "length key = 65"
  shows "\<exists>it. pipeline ext bloom m buf cur_line len = Inr it
           \<and> it_secret it = secret
           \<and> it_uncompressed it = key
           \<and> it_compressed it = take 33 (key[0 := 0x02 OR (key ! 64 AND 0x01)])
           \<and> it_compressed it = take 33 (it_pubkey it)
           \<and> it_hash160_uncomp it = RIPEMD160 ext (SHA256 ext (it_uncompressed it))
           \<and> it_hash160_comp it = RIPEMD160 ext (SHA256 ext (it_compressed it))
           \<and> it_reported it =
               (if bloom (it_hash160_uncomp it)
                then [display cur_line secret (it_hash160_uncomp it) 0] else []) @
               (if bloom (it_hash160_comp it)
                then [display cur_line secret (it_hash160_comp it) 1] else [])"
proof -
  let ?p1 = "write_at buf 0 key"
  have u: "take 65 ?p1 = key"
    using take_write_at_0 [of key buf] assms(3) by simp
  have n64: "?p1 ! 64 = key ! 64"
    using assms(3) by (simp add: nth_write_at_0)
  have c: "take 33 (?p1[0 := b]) = take 33 (key[0 := b])" for b
    using assms(3) by (simp add: take_update_write_at_0)
  show ?thesis
    by (simp add: pipeline_def Let_def assms(1,2) u n64 c)
qed

text \<open>
  C4. For a secret the curve library accepts, with its 65-byte encoding \<open>key\<close>: the
  compressed encoding that is hashed has 33 bytes; its first byte is \<open>0x02\<close> when the
  last byte of \<open>key\<close> is even and \<open>0x03\<close> when it is odd; its bytes 1 to 32 are bytes 1
  to 32 of \<open>key\<close>; and it is the uncompressed encoding with byte 0 overwritten, cut to
  33 bytes, which are the first 33 bytes of the \<open>pubkey\<close> array itself after the pass.
\<close>

theorem compressed_from_uncompressed:
  assumes "make_secret ext m cur_line (sint len) = Inr secret"
      and "secp256k1_ecdsa_pubkey_create ext secret = Some key"
      and "length key = 65"
  shows "\<exists>it. pipeline ext bloom m buf cur_line len = Inr it
           \<and> it_uncompressed it = key
           \<and> length (it_compressed it) = 33
           \<and> it_compressed it ! 0 = (if even (key ! 64) then 0x02 else 0x03)
           \<and> take 32 (drop 1 (it_compressed it)) = take 32 (drop 1 key)
           \<and> it_compressed it =
               take 33 ((it_uncompressed it)[0 := 0x02 OR (it_uncompressed it ! 64 AND 0x01)])
           \<and> it_compressed it = take 33 (it_pubkey it)"
proof -
  let ?c = "take 33 (key[0 := 0x02 OR (key ! 64 AND 0x01)])"
  obtain it where it: "pipeline ext bloom m buf cur_line len = Inr it"
      "it_uncompressed it = key" "it_compressed it = ?c"
      "it_compressed it = take 33 (it_pubkey it)"
    using pipeline_valid_key [OF assms] by blast
  obtain k0 ks where key: "key = k0 # ks" and ks: "length ks = 64"
    using assms(3) by (cases key) simp_all
  have l: "length ?c = 33"
    using assms(3) by simp
  have z: "?c ! 0 = (if even (key ! 64) then 0x02 else 0x03)"
    by (simp add: key prefix_byte del: One_nat_def)
  have x: "take 32 (drop 1 ?c) = take 32 (drop 1 key)"
    using ks by (simp add: key drop_take)
  have p: "?c = take 33 (it_pubkey it)"
    using it(3,4) by simp
  show ?thesis
    using it(1,2,3) l z x p by (intro exI [of _ it]) (simp only: simp_thms)
qed

theorem compressed_from_uncompressed_witness:
  "\<exists>it. pipeline test_collab (bloom_open test_collab ''one'') Hexwallet
           (replicate 96 0) [CHR ''1'', NUL, NUL] 1 = Inr it
       \<and> it_uncompressed it = 4 # (replicate 31 0 @ [1]) @ (replicate 31 0 @ [1])
       \<and> it_compressed it = 3 # (replicate 31 0 @ [1])"
proof -
  let ?s = "replicate 31 0 @ [1 :: byte]"
  have 1: "make_secret test_collab Hexwallet [CHR ''1'', NUL, NUL] (sint (1 :: 32 word)) = Inr ?s"
    by (simp add: make_secret_def hex_to_bytes_def hex_digit_def write_at_def Let_def)
  have 2: "secp256k1_ecdsa_pubkey_create test_collab ?s = Some (4 # ?s @ ?s)"
    by (simp add: test_collab_def eval_nat_numeral)
  have 3: "length (4 # ?s @ ?s) = 65"
    by simp
  show ?thesis
    using compressed_from_uncompressed [OF 1 2 3,
        of "bloom_open test_collab ''one''" "replicate 96 0"]
    by (auto simp add: eval_nat_numeral)
qed


text \<open>
  C7. For a secret the curve library accepts, a pass computes two hashes, the
  \<open>RIPEMD160\<close> of the \<open>SHA256\<close> of the 65-byte encoding and of the 33-byte encoding, and
  asks the filter about each on its own: \<open>display\<close> is called with flag 0 exactly when
  the first hash is in the filter and with flag 1 exactly when the second is, so a
  candidate is reported zero, one or two times.
\<close>

theorem two_independent_lookups:
  assumes "make_secret ext m cur_line (sint len) = Inr secret"
      and "secp256k1_ecdsa_pubkey_create ext secret = Some key"
      and "length key = 65"
  shows "\<exists>it. pipeline ext bloom m buf cur_line len = Inr it
           \<and> it_hash160_uncomp it = RIPEMD160 ext (SHA256 ext key)
           \<and> it_hash160_comp it =
               RIPEMD160 ext (SHA256 ext (take 33 (key[0 := 0x02 OR (key ! 64 AND 0x01)])))
           \<and> it_reported it =
               (if bloom (it_hash160_uncomp it)
                then [display cur_line secret (it_hash160_uncomp it) 0] else []) @
               (if bloom (it_hash160_comp it)
                then [display cur_line secret (it_hash160_comp it) 1] else [])"
proof -
  obtain it where it: "pipeline ext bloom m buf cur_line len = Inr it"
      "it_uncompressed it = key"
      "it_compressed it = take 33 (key[0 := 0x02 OR (key ! 64 AND 0x01)])"
      "it_hash160_uncomp it = RIPEMD160 ext (SHA256 ext (it_uncompressed it))"
      "it_hash160_comp it = RIPEMD160 ext (SHA256 ext (it_compressed it))"
      "it_reported it =
               (if bloom (it_hash160_uncomp it)
                then [display cur_line secret (it_hash160_uncomp it) 0] else []) @
               (if bloom (it_hash160_comp it)
                then [display cur_line secret (it_hash160_comp it) 1] else [])"
    using pipeline_valid_key [OF assms] by blast
  from it(4) it(5) have
    "it_hash160_uncomp it = RIPEMD160 ext (SHA256 ext key)"
    "it_hash160_comp it =
       RIPEMD160 ext (SHA256 ext (take 33 (key[0 := 0x02 OR (key ! 64 AND 0x01)])))"
    by (simp_all only: it(2) it(3))
  with it(1) it(6) show ?thesis
    by (intro exI [of _ it]) (simp only: simp_thms)
qed

theorem two_independent_lookups_witness:
  "\<exists>it. pipeline test_collab (bloom_open test_collab ''one'') Hexwallet
           (replicate 96 0) [CHR ''1'', NUL, NUL] 1 = Inr it
       \<and> it_hash160_uncomp it = 65 # 4 # replicate 18 0
       \<and> it_hash160_comp it = 33 # 3 # replicate 18 0
       \<and> it_reported it =
           [\<lparr>input_word = ''1'', privkey_secret = replicate 31 0 @ [1],
             pubkey_hash = 33 # 3 # replicate 18 0, compressed = 1\<rparr>]"
proof -
  let ?s = "replicate 31 0 @ [1 :: byte]"
  have 1: "make_secret test_collab Hexwallet [CHR ''1'', NUL, NUL] (sint (1 :: 32 word)) = Inr ?s"
    by (simp add: make_secret_def hex_to_bytes_def hex_digit_def write_at_def Let_def)
  have 2: "secp256k1_ecdsa_pubkey_create test_collab ?s = Some (4 # ?s @ ?s)"
    by (simp add: test_collab_def eval_nat_numeral)
  have 3: "length (4 # ?s @ ?s) = 65"
    by simp
  have 4: "RIPEMD160 test_collab (SHA256 test_collab (4 # ?s @ ?s)) = 65 # 4 # replicate 18 0"
    by (simp add: test_collab_def eval_nat_numeral)
  have 5: "RIPEMD160 test_collab (SHA256 test_collab
             (take 33 ((4 # ?s @ ?s)[0 := 0x02 OR ((4 # ?s @ ?s) ! 64 AND 0x01)])))
           = 33 # 3 # replicate 18 0"
    by (simp add: test_collab_def eval_nat_numeral)
  have 6: "bloom_open test_collab ''one'' h = (h = 33 # 3 # replicate 18 0)" for h
    by (simp add: test_collab_def)
  have 7: "display [CHR ''1'', NUL, NUL] ?s h 1
           = \<lparr>input_word = ''1'', privkey_secret = ?s, pubkey_hash = h, compressed = 1\<rparr>" for h
    by (simp add: display_def strlen_def)
  obtain it where it:
    "pipeline test_collab (bloom_open test_collab ''one'') Hexwallet
       (replicate 96 0) [CHR ''1'', NUL, NUL] 1 = Inr it"
    "it_hash160_uncomp it = RIPEMD160 test_collab (SHA256 test_collab (4 # ?s @ ?s))"
    "it_hash160_comp it = RIPEMD160 test_collab (SHA256 test_collab
             (take 33 ((4 # ?s @ ?s)[0 := 0x02 OR ((4 # ?s @ ?s) ! 64 AND 0x01)])))"
    "it_reported it =
       (if bloom_open test_collab ''one'' (it_hash160_uncomp it)
        then [display [CHR ''1'', NUL, NUL] ?s (it_hash160_uncomp it) 0] else []) @
       (if bloom_open test_collab ''one'' (it_hash160_comp it)
        then [display [CHR ''1'', NUL, NUL] ?s (it_hash160_comp it) 1] else [])"
    using two_independent_lookups [OF 1 2 3,
        of "bloom_open test_collab ''one''" "replicate 96 0"]
    by blast
  have u: "it_hash160_uncomp it = 65 # 4 # replicate 18 0"
    using it(2) by (simp only: 4)
  have c: "it_hash160_comp it = 33 # 3 # replicate 18 0"
    using it(3) by (simp only: 5)
  have r: "it_reported it =
           [\<lparr>input_word = ''1'', privkey_secret = ?s,
             pubkey_hash = 33 # 3 # replicate 18 0, compressed = 1\<rparr>]"
    using it(4) by (simp add: u c 6 7)
  show ?thesis
    using it(1) u c r by (intro exI [of _ it]) (simp only: simp_thms)
qed

lemma pipeline_invalid_key:
  assumes "make_secret ext m cur_line (sint len) = Inr secret"
      and "secp256k1_ecdsa_pubkey_create ext secret = None"
  shows "\<exists>it. pipeline ext bloom m buf cur_line len = Inr it
           \<and> it_secret it = secret
           \<and> it_uncompressed it = take 65 buf
           \<and> it_compressed it = take 33 (buf[0 := 0x02 OR (buf ! 64 AND 0x01)])
           \<and> it_hash160_uncomp it = RIPEMD160 ext (SHA256 ext (it_uncompressed it))
           \<and> it_hash160_comp it = RIPEMD160 ext (SHA256 ext (it_compressed it))
           \<and> it_reported it =
               (if bloom (it_hash160_uncomp it)
                then [display cur_line secret (it_hash160_uncomp it) 0] else []) @
               (if bloom (it_hash160_comp it)
                then [display cur_line secret (it_hash160_comp it) 1] else [])"
  by (simp add: pipeline_def Let_def assms)

lemma pipeline_valid_pubkey:
  assumes "make_secret ext m cur_line (sint len) = Inr secret"
      and "secp256k1_ecdsa_pubkey_create ext secret = Some key"
      and "pipeline ext bloom m buf cur_line len = Inr it"
  shows "it_pubkey it = (write_at buf 0 key)[0 := 0x02 OR (write_at buf 0 key ! 64 AND 0x01)]"
    and "it_compressed it = take 33 (it_pubkey it)"
    and "it_hash160_comp it = RIPEMD160 ext (SHA256 ext (it_compressed it))"
  using assms(3) by (auto simp add: pipeline_def Let_def assms(1,2))

text \<open>
  C3 is not what the code does. The value returned by \<open>secp256k1_ecdsa_pubkey_create\<close>
  is dropped, so a candidate whose secret the curve library rejects is hashed and looked
  up like any other, on the bytes that the pass before left in \<open>pubkey\<close>. When that pass
  had a valid key and a hit on the compressed hash, the rejected candidate gets the same
  compressed hash and is reported with it.
\<close>

theorem invalid_secret_reuses_stale_key:
  assumes "make_secret ext m line1 (sint len1) = Inr secret1"
      and "secp256k1_ecdsa_pubkey_create ext secret1 = Some key"
      and "length key = 65"
      and "pipeline ext bloom m buf line1 len1 = Inr it1"
      and "bloom (it_hash160_comp it1)"
      and "make_secret ext m line2 (sint len2) = Inr secret2"
      and "secp256k1_ecdsa_pubkey_create ext secret2 = None"
  shows "\<exists>it2. pipeline ext bloom m (it_pubkey it1) line2 len2 = Inr it2
           \<and> it_compressed it2 = it_compressed it1
           \<and> it_hash160_comp it2 = it_hash160_comp it1
           \<and> display line2 secret2 (it_hash160_comp it1) 1 \<in> set (it_reported it2)"
proof -
  let ?p = "write_at buf 0 key"
  let ?b = "0x02 OR (?p ! 64 AND 0x01)"
  have p: "it_pubkey it1 = ?p[0 := ?b]"
    and c1: "it_compressed it1 = take 33 (it_pubkey it1)"
    and h1: "it_hash160_comp it1 = RIPEMD160 ext (SHA256 ext (it_compressed it1))"
    using pipeline_valid_pubkey [OF assms(1,2,4)] by simp_all
  have "length ?p \<ge> 65"
    using assms(3) by (simp add: write_at_def)
  then have "it_pubkey it1 ! 64 = ?p ! 64"
    by (simp add: p)
  then have same: "(it_pubkey it1)[0 := 0x02 OR (it_pubkey it1 ! 64 AND 0x01)] = it_pubkey it1"
    by (simp add: p)
  obtain it2 where it2: "pipeline ext bloom m (it_pubkey it1) line2 len2 = Inr it2"
      "it_compressed it2 =
         take 33 ((it_pubkey it1)[0 := 0x02 OR (it_pubkey it1 ! 64 AND 0x01)])"
      "it_hash160_comp it2 = RIPEMD160 ext (SHA256 ext (it_compressed it2))"
      "it_reported it2 =
               (if bloom (it_hash160_uncomp it2)
                then [display line2 secret2 (it_hash160_uncomp it2) 0] else []) @
               (if bloom (it_hash160_comp it2)
                then [display line2 secret2 (it_hash160_comp it2) 1] else [])"
    using pipeline_invalid_key [OF assms(6,7)] by blast
  have c: "it_compressed it2 = it_compressed it1"
    using it2(2) by (simp only: same c1)
  have h: "it_hash160_comp it2 = it_hash160_comp it1"
    using it2(3) by (simp only: c h1)
  have r: "display line2 secret2 (it_hash160_comp it1) 1 \<in> set (it_reported it2)"
    using assms(5) by (simp add: it2(4) h)
  show ?thesis
    using it2(1) c h r by (intro exI [of _ it2]) (simp only: simp_thms)
qed

theorem invalid_secret_reuses_stale_key_witness:
  "(\<exists>it2. pipeline test_collab (bloom_open test_collab ''one'') Hexwallet
            (3 # (replicate 31 0 @ [1]) @ (replicate 31 0 @ [1]) @ replicate 31 0)
            [CHR ''0'', NUL, NUL] 1 = Inr it2
        \<and> display [CHR ''0'', NUL, NUL] (replicate 32 0) (33 # 3 # replicate 18 0) 1
            \<in> set (it_reported it2))
   \<and> stdout_log (final (main test_collab Hexwallet [''brainflayer'', ''one'']
           (''1'' @ [NL] @ ''0'' @ [NL]) (replicate 7 (Run 0))))
     = [\<lparr>input_word = ''1'', privkey_secret = replicate 31 0 @ [1],
          pubkey_hash = 33 # 3 # replicate 18 0, compressed = 1\<rparr>,
        \<lparr>input_word = ''0'', privkey_secret = replicate 32 0,
          pubkey_hash = 33 # 3 # replicate 18 0, compressed = 1\<rparr>]"
proof -
  let ?s = "replicate 31 0 @ [1 :: byte]"
  let ?F = "bloom_open test_collab ''one''"
  have 1: "make_secret test_collab Hexwallet [CHR ''1'', NUL, NUL] (sint (1 :: 32 word)) = Inr ?s"
    by (simp add: make_secret_def hex_to_bytes_def hex_digit_def write_at_def Let_def)
  have 2: "secp256k1_ecdsa_pubkey_create test_collab ?s = Some (4 # ?s @ ?s)"
    by (simp add: test_collab_def eval_nat_numeral)
  have 3: "length (4 # ?s @ ?s) = 65"
    by simp
  obtain it1 where 4: "pipeline test_collab ?F Hexwallet (replicate 96 0)
                         [CHR ''1'', NUL, NUL] 1 = Inr it1"
    using pipeline_valid_key [OF 1 2 3] by blast
  have p: "it_pubkey it1 = 3 # ?s @ ?s @ replicate 31 0"
    using pipeline_valid_pubkey(1) [OF 1 2 4]
    by (simp add: write_at_def eval_nat_numeral)
  have h: "it_hash160_comp it1 = 33 # 3 # replicate 18 0"
    using pipeline_valid_pubkey(2,3) [OF 1 2 4]
    by (simp add: p) (simp add: test_collab_def eval_nat_numeral)
  have 5: "?F (it_hash160_comp it1)"
    by (simp add: h) (simp add: test_collab_def)
  have 6: "make_secret test_collab Hexwallet [CHR ''0'', NUL, NUL] (sint (1 :: 32 word))
           = Inr (replicate 32 0)"
    by (simp add: make_secret_def hex_to_bytes_def hex_digit_def write_at_def Let_def
                  eval_nat_numeral)
  have 7: "secp256k1_ecdsa_pubkey_create test_collab (replicate 32 0) = None"
    by (simp add: test_collab_def)
  have inst: "\<exists>it2. pipeline test_collab ?F Hexwallet
            (3 # ?s @ ?s @ replicate 31 0) [CHR ''0'', NUL, NUL] 1 = Inr it2
        \<and> display [CHR ''0'', NUL, NUL] (replicate 32 0) (33 # 3 # replicate 18 0) 1
            \<in> set (it_reported it2)"
    using invalid_secret_reuses_stale_key [OF 1 2 3 4 5 6 7]
    by (simp only: p h) blast
  have run: "stdout_log (final (main test_collab Hexwallet [''brainflayer'', ''one'']
           (''1'' @ [NL] @ ''0'' @ [NL]) (replicate 7 (Run 0))))
     = [\<lparr>input_word = ''1'', privkey_secret = replicate 31 0 @ [1],
          pubkey_hash = 33 # 3 # replicate 18 0, compressed = 1\<rparr>,
        \<lparr>input_word = ''0'', privkey_secret = replicate 32 0,
          pubkey_hash = 33 # 3 # replicate 18 0, compressed = 1\<rparr>]"
    by code_simp
  from inst run show ?thesis
    by (rule conjI)
qed

section \<open>Lines and candidates\<close>

lemma unat_of_nat_32: "n < 2 ^ 32 \<Longrightarrow> unat (word_of_nat n :: 32 word) = n"
  by (simp add: unat_of_nat)

lemma sint_of_nat_32: "n < 2 ^ 31 \<Longrightarrow> sint (word_of_nat n :: 32 word) = int n"
  by (simp add: signed_of_nat signed_take_bit_int_eq_self)

lemma strlen_no_NUL: "NUL \<notin> set s \<Longrightarrow> strlen (s @ NUL # r) = length s"
  by (induction s) (auto simp add: strlen_def)

lemma trim_line_drops_last:
  assumes "NUL \<notin> set s" and "c \<noteq> NUL" and "length s < 2 ^ 32"
  shows "trim_line (s @ [c]) = Inr (s @ [NUL, NUL], word_of_nat (length s))"
proof -
  have "strlen ((s @ [c]) @ [NUL]) = length s + 1"
    using strlen_no_NUL [of "s @ [c]" "[]"] assms(1,2) by simp
  moreover have "unat (word_of_nat (length s) :: 32 word) = length s"
    using assms(3) by (rule unat_of_nat_32)
  ultimately show ?thesis
    by (simp add: trim_line_def Let_def)
qed

lemma getline_unterminated:
  "s \<noteq> [] \<Longrightarrow> NL \<notin> set s \<Longrightarrow> getline s = Some (s, [])"
proof -
  assume s: "s \<noteq> []" "NL \<notin> set s"
  from s(2) have "dropWhile (\<lambda>c. c \<noteq> NL) s = []"
    by (induction s) auto
  then have "getline s = (if s = [] then None else Some (s, []))"
    by (simp only: getline_def list.case)
  with s(1) show ?thesis
    by simp
qed

text \<open>
  C8 is not what the code does on a last line that has no newline. Line 184 overwrites
  the last byte of whatever \<open>getline\<close> returned, newline or not: when the stream ends
  with the bytes \<open>s @ [c]\<close> and no newline, \<open>getline\<close> returns them all, and the
  candidate that is hashed and printed is \<open>s\<close>, without the byte \<open>c\<close>.
\<close>

theorem unterminated_line_loses_last_byte:
  assumes "NL \<notin> set (s @ [c])" and "NUL \<notin> set (s @ [c])" and "length s < 2 ^ 31"
  shows "getline (s @ [c]) = Some (s @ [c], [])
       \<and> trim_line (s @ [c]) = Inr (s @ [NUL, NUL], word_of_nat (length s))
       \<and> make_secret ext Brainwallet (s @ [NUL, NUL]) (sint (word_of_nat (length s) :: 32 word))
           = Inr (SHA256 ext (map of_char s))
       \<and> input_word (display (s @ [NUL, NUL]) secret h compr) = s"
proof -
  have g: "getline (s @ [c]) = Some (s @ [c], [])"
    using assms(1) by (intro getline_unterminated) simp_all
  have t: "trim_line (s @ [c]) = Inr (s @ [NUL, NUL], word_of_nat (length s))"
    using assms(2,3) by (intro trim_line_drops_last) auto
  have "sint (word_of_nat (length s) :: 32 word) = int (length s)"
    using assms(3) by (rule sint_of_nat_32)
  then have m: "make_secret ext Brainwallet (s @ [NUL, NUL])
                  (sint (word_of_nat (length s) :: 32 word))
                = Inr (SHA256 ext (map of_char s))"
    by (simp add: make_secret_def)
  have d: "input_word (display (s @ [NUL, NUL]) secret h compr) = s"
    using assms(2) strlen_no_NUL [of s "[NUL]"] by (simp add: display_def)
  from g t m d show ?thesis by simp
qed

theorem unterminated_line_loses_last_byte_witness:
  "getline ''abc'' = Some (''abc'', [])
   \<and> trim_line ''abc'' = Inr ([CHR ''a'', CHR ''b'', NUL, NUL], 2)
   \<and> make_secret test_collab Brainwallet [CHR ''a'', CHR ''b'', NUL, NUL] 2
       = Inr (SHA256 test_collab [0x61, 0x62])"
  using unterminated_line_loses_last_byte [of "''ab''" "CHR ''c''" test_collab]
  by simp

lemma trim_line_newline:
  assumes "NUL \<notin> set s" and "length s < 2 ^ 32"
  shows "trim_line (s @ [NL]) = Inr (s @ [NUL, NUL], word_of_nat (length s))"
  using assms by (intro trim_line_drops_last) simp_all


section \<open>Steps of a worker\<close>

lemma step_Run:
  "crashed s = None \<Longrightarrow> i < length (workers s) \<Longrightarrow>
   step ext bloom m (Run i) s = worker_step ext bloom m i s"
  by (simp add: step_def)

lemma worker_updates:
  "w\<lparr>my_line_count := c, phase := p, pubkey := k\<rparr> =
     \<lparr>phase = p, my_line_count = c, pubkey = k\<rparr>"
  by (cases w) simp

lemma pipeline_total:
  assumes "make_secret ext m cur_line (sint len) = Inr secret"
  shows "\<exists>it. pipeline ext bloom m buf cur_line len = Inr it
           \<and> it_secret it = secret
           \<and> it_hash160_uncomp it = RIPEMD160 ext (SHA256 ext (it_uncompressed it))
           \<and> it_hash160_comp it = RIPEMD160 ext (SHA256 ext (it_compressed it))
           \<and> it_reported it =
               (if bloom (it_hash160_uncomp it)
                then [display cur_line secret (it_hash160_uncomp it) 0] else []) @
               (if bloom (it_hash160_comp it)
                then [display cur_line secret (it_hash160_comp it) 1] else [])"
  by (simp add: pipeline_def Let_def assms)

lemma make_secret_empty:
  "make_secret ext m [NUL, NUL] (sint (0 :: 32 word)) =
     Inr (case m of Brainwallet \<Rightarrow> SHA256 ext [] | Warpwallet \<Rightarrow> warpwallet ext []
          | Hexwallet \<Rightarrow> replicate 32 0)"
  by (cases m) (simp_all add: make_secret_def hex_to_bytes_def write_at_def)

text \<open>
  C9. When \<open>argc\<close> is not 2, \<open>main\<close> writes the two messages to \<open>stderr\<close> and calls
  \<open>exit(1)\<close>: the status is 1, no worker exists, nothing was read from the input and
  nothing was printed.
\<close>

theorem wrong_argument_count:
  assumes "int (length argv) \<noteq> 2"
  shows "main ext m argv inp sched =
           \<lparr>exit_status = Exit 1,
            stderr_log = [Incorrect_number_of_arguments (int (length argv)),
                          Usage (case argv of [] \<Rightarrow> None | a # _ \<Rightarrow> Some a)],
            final = initial ext inp 0\<rparr>
       \<and> workers (final (main ext m argv inp sched)) = []
       \<and> stdin_rest (final (main ext m argv inp sched)) = inp
       \<and> claimed (final (main ext m argv inp sched)) = []
       \<and> stdout_log (final (main ext m argv inp sched)) = []"
  using assms by (simp add: main_def initial_def)

theorem wrong_argument_count_witness:
  "main test_collab Brainwallet [''brainflayer''] (''test'' @ [NL]) [Run 0, Run 0, Run 0] =
           \<lparr>exit_status = Exit 1,
            stderr_log = [Incorrect_number_of_arguments 1, Usage (Some ''brainflayer'')],
            final = initial test_collab (''test'' @ [NL]) 0\<rparr>
   \<and> stdin_rest (final (main test_collab Brainwallet [''brainflayer''] (''test'' @ [NL])
                            [Run 0, Run 0, Run 0])) = ''test'' @ [NL]"
proof -
  have "int (length [''brainflayer'']) \<noteq> 2"
    by simp
  from wrong_argument_count [OF this, of test_collab Brainwallet "''test'' @ [NL]"
                                 "[Run 0, Run 0, Run 0]"]
  show ?thesis
    by (simp add: initial_def)
qed

section \<open>Runs\<close>

lemma exec_Nil: "exec ext bloom m [] s = s"
  by (simp add: exec_def)

lemma exec_Cons: "exec ext bloom m (e # es) s = exec ext bloom m es (step ext bloom m e s)"
  by (simp add: exec_def)

lemma exec_append:
  "exec ext bloom m (es @ fs) s = exec ext bloom m fs (exec ext bloom m es s)"
  by (simp add: exec_def)

lemma length_workers_step: "length (workers (step ext bloom m e s)) = length (workers s)"
  by (cases e)
     (auto simp add: step_def worker_step_def Let_def
           split: phase.splits option.splits sum.splits prod.splits)

lemma length_workers_exec: "length (workers (exec ext bloom m es s)) = length (workers s)"
  by (induction es arbitrary: s) (simp_all add: exec_Nil exec_Cons length_workers_step)

subsection \<open>After the signal\<close>

lemma signal_stays_step: "signal_break s \<noteq> 0 \<Longrightarrow> signal_break (step ext bloom m e s) \<noteq> 0"
  by (cases e)
     (auto simp add: step_def worker_step_def Let_def
           split: phase.splits option.splits sum.splits prod.splits)

lemma signal_stays: "signal_break s \<noteq> 0 \<Longrightarrow> signal_break (exec ext bloom m es s) \<noteq> 0"
  by (induction es arbitrary: s) (simp_all add: exec_Nil exec_Cons signal_stays_step)





subsection \<open>Sums over the pool\<close>

lemma sum_list_map_update:
  fixes g :: "'a \<Rightarrow> 'b::comm_monoid_add"
  assumes "i < length xs"
  shows "sum_list (map g (xs[i := y])) + g (xs ! i) = sum_list (map g xs) + g y"
  using assms
proof (induction xs arbitrary: i)
  case Nil
  then show ?case by simp
next
  case (Cons x xs)
  show ?case
  proof (cases i)
    case 0
    then show ?thesis by (simp add: ac_simps)
  next
    case (Suc j)
    with Cons.prems have "j < length xs" by simp
    from Cons.IH [OF this] Suc show ?thesis
      by (simp add: add.assoc)
  qed
qed

lemma sum_list_enumerate_update:
  fixes g :: "nat \<times> 'a \<Rightarrow> 'b::comm_monoid_add"
  assumes "i < length xs"
  shows "sum_list (map g (enumerate k (xs[i := y]))) + g (k + i, xs ! i)
         = sum_list (map g (enumerate k xs)) + g (k + i, y)"
  using assms
proof (induction xs arbitrary: i k)
  case Nil
  then show ?case by simp
next
  case (Cons x xs)
  show ?case
  proof (cases i)
    case 0
    then show ?thesis by (simp add: ac_simps)
  next
    case (Suc j)
    with Cons.prems have "j < length xs" by simp
    from Cons.IH [OF this, of "Suc k"] Suc show ?thesis
      by (simp add: add.assoc)
  qed
qed

lemma in_flight_update:
  assumes "i < length ws"
  shows "mset (in_flight (ws[i := w])) + mset (busy_line (i, ws ! i))
         = mset (in_flight ws) + mset (busy_line (i, w))"
proof -
  have "in_flight xs = concat (map busy_line (enumerate 0 xs))" for xs
    by (simp add: in_flight_def busy_line_def)
  then have "mset (in_flight xs) = sum_list (map (mset \<circ> busy_line) (enumerate 0 xs))" for xs
    by (simp add: mset_concat)
  then show ?thesis
    using sum_list_enumerate_update [OF assms, of "mset \<circ> busy_line" 0 w] by simp
qed

lemma fetched_update:
  assumes "i < length ws"
  shows "mset (fetched (ws[i := w])) + mset (got_line (i, ws ! i))
         = mset (fetched ws) + mset (got_line (i, w))"
proof -
  have "fetched xs = concat (map got_line (enumerate 0 xs))" for xs
    by (simp add: fetched_def got_line_def)
  then have "mset (fetched xs) = sum_list (map (mset \<circ> got_line) (enumerate 0 xs))" for xs
    by (simp add: mset_concat)
  then show ?thesis
    using sum_list_enumerate_update [OF assms, of "mset \<circ> got_line" 0 w] by simp
qed

lemma pending_count_update:
  assumes "i < length ws"
  shows "pending_count (ws[i := w]) + (if phase (ws ! i) = Done then 0 else my_line_count (ws ! i))
         = pending_count ws + (if phase w = Done then 0 else my_line_count w)"
  unfolding pending_count_def
  using sum_list_map_update [OF assms,
      of "\<lambda>w. if phase w = Done then 0 else my_line_count w" w]
  by simp

lemma in_flight_same:
  assumes "i < length ws" and "busy_line (i, w) = busy_line (i, ws ! i)"
  shows "mset (in_flight (ws[i := w])) = mset (in_flight ws)"
  using in_flight_update [OF assms(1), of w] assms(2) by simp

lemma fetched_same:
  assumes "i < length ws" and "got_line (i, w) = got_line (i, ws ! i)"
  shows "mset (fetched (ws[i := w])) = mset (fetched ws)"
  using fetched_update [OF assms(1), of w] assms(2) by simp

subsection \<open>What a step does\<close>


lemma step_idle:
  "\<not> (crashed s = None \<and> i < length (workers s)) \<Longrightarrow> step ext bloom m (Run i) s = s"
  by (auto simp add: step_def)








lemma exit_status_main:
  assumes "int (length argv) = 2"
  shows "exit_status (main ext m argv inp sched) =
           (case crashed (final (main ext m argv inp sched)) of
              Some e \<Rightarrow> Crash e
            | None \<Rightarrow> if all_done (workers (final (main ext m argv inp sched)))
                      then Exit 0 else Running)"
    and "final (main ext m argv inp sched) =
           exec ext (bloom_open ext (argv ! 1)) m sched (initial ext inp (omp_get_max_threads ext))"
  using assms by (simp_all add: main_def Let_def)

section \<open>Runs without a signal\<close>

lemma getline_None_iff: "getline inp = None \<longleftrightarrow> inp = []"
  by (simp add: getline_def split: list.splits)

lemma lines_of_no_newline: "s \<noteq> [] \<Longrightarrow> NL \<notin> set s \<Longrightarrow> lines_of s = [s]"
proof (induction s)
  case Nil
  then show ?case by simp
next
  case (Cons c s)
  then show ?case by (cases "s = []") auto
qed

lemma lines_of_first_line: "NL \<notin> set p \<Longrightarrow> lines_of (p @ NL # r) = (p @ [NL]) # lines_of r"
  by (induction p) auto

lemma getline_lines_of:
  assumes "getline inp = Some (l, rest)"
  shows "lines_of inp = l # lines_of rest"
proof -
  let ?P = "\<lambda>c. c \<noteq> NL"
  from assms have ne: "inp \<noteq> []"
    by (auto simp add: getline_def)
  show ?thesis
  proof (cases "dropWhile ?P inp")
    case Nil
    then have "NL \<notin> set inp"
      by (auto simp add: dropWhile_eq_Nil_conv)
    moreover from assms ne Nil have "l = inp" "rest = []"
      by (simp_all add: getline_def)
    ultimately show ?thesis
      using ne by (simp add: lines_of_no_newline)
  next
    case (Cons nl r)
    then have nl: "nl = NL"
      using hd_dropWhile [of ?P inp] by auto
    have split: "inp = takeWhile ?P inp @ NL # r"
      using takeWhile_dropWhile_id [of ?P inp] by (simp add: Cons nl)
    have "NL \<notin> set (takeWhile ?P inp)"
      by (auto dest: set_takeWhileD)
    then have "lines_of (takeWhile ?P inp @ NL # r) = (takeWhile ?P inp @ [NL]) # lines_of r"
      by (rule lines_of_first_line)
    moreover from assms ne Cons have "l = takeWhile ?P inp @ [NL]" "rest = r"
      by (simp_all add: getline_def nl)
    ultimately show ?thesis
      using split by simp
  qed
qed

subsection \<open>The cases of a worker's step\<close>

lemma worker_step_AtTop_eof:
  assumes "phase (workers s ! i) = AtTop" and "stdin_rest s = []"
  shows "worker_step ext bloom m i s =
           s\<lparr>workers := (workers s)[i := (workers s ! i)\<lparr>phase := Got None\<rparr>]\<rparr>"
  using assms by (simp add: worker_step_def Let_def getline_def)

lemma worker_step_AtTop_line:
  assumes "phase (workers s ! i) = AtTop" and "getline (stdin_rest s) = Some (l, rest)"
  shows "worker_step ext bloom m i s =
           s\<lparr>stdin_rest := rest,
             workers := (workers s)[i := (workers s ! i)\<lparr>phase := Got (Some l)\<rparr>],
             claimed := claimed s @ [(i, l)]\<rparr>"
  using assms by (simp add: worker_step_def Let_def)

lemma worker_step_Got_eof:
  assumes "phase (workers s ! i) = Got None"
  shows "worker_step ext bloom m i s =
           s\<lparr>workers := (workers s)[i := (workers s ! i)\<lparr>phase := Stopped\<rparr>]\<rparr>"
  using assms by (simp add: worker_step_def Let_def)

lemma worker_step_Got_break:
  assumes "phase (workers s ! i) = Got (Some l)"
      and "(word_of_nat (length l) :: 32 word) = - 1 \<or> signal_break s \<noteq> 0"
  shows "worker_step ext bloom m i s =
           s\<lparr>workers := (workers s)[i := (workers s ! i)\<lparr>phase := Stopped\<rparr>]\<rparr>"
  using assms by (auto simp add: worker_step_def Let_def)

lemma worker_step_Got_line:
  assumes "phase (workers s ! i) = Got (Some l)"
      and "(word_of_nat (length l) :: 32 word) \<noteq> - 1" and "signal_break s = 0"
  shows "worker_step ext bloom m i s =
           s\<lparr>workers := (workers s)[i := (workers s ! i)
                 \<lparr>phase := Busy l, my_line_count := my_line_count (workers s ! i) + 1\<rparr>]\<rparr>"
  using assms by (simp add: worker_step_def Let_def)

lemma worker_step_Busy_crash:
  assumes "phase (workers s ! i) = Busy l"
      and "loop_body ext bloom m (pubkey (workers s ! i)) l = Inl e"
  shows "worker_step ext bloom m i s = s\<lparr>crashed := Some e\<rparr>"
  using assms by (simp add: worker_step_def Let_def)

lemma worker_step_Busy_pass:
  assumes "phase (workers s ! i) = Busy l"
      and "loop_body ext bloom m (pubkey (workers s ! i)) l = Inr it"
  shows "worker_step ext bloom m i s =
           s\<lparr>workers := (workers s)[i := (workers s ! i)
                 \<lparr>phase := AtTop, pubkey := it_pubkey it\<rparr>],
             stdout_log := stdout_log s @ it_reported it,
             processed := processed s @ [(i, l)]\<rparr>"
  using assms by (simp add: worker_step_def Let_def)

lemma worker_step_Stopped:
  assumes "phase (workers s ! i) = Stopped"
  shows "worker_step ext bloom m i s =
           s\<lparr>line_count := line_count s + my_line_count (workers s ! i),
             workers := (workers s)[i := (workers s ! i)\<lparr>phase := Done\<rparr>]\<rparr>"
  using assms by (simp add: worker_step_def Let_def)

lemma worker_step_Done:
  assumes "phase (workers s ! i) = Done"
  shows "worker_step ext bloom m i s = s"
  using assms by (simp add: worker_step_def Let_def)


subsection \<open>The invariant\<close>

lemma in_flight_update_length:
  assumes "i < length ws"
  shows "length (in_flight (ws[i := w])) + length (busy_line (i, ws ! i))
         = length (in_flight ws) + length (busy_line (i, w))"
  using arg_cong [OF in_flight_update [OF assms, of w], of size] by simp

lemma ended_update:
  assumes "(\<exists>w \<in> set ws. ended (phase w)) \<longrightarrow> rest = []"
      and "ended (phase w') \<longrightarrow> rest' = []"
      and "rest = [] \<longrightarrow> rest' = []"
  shows "(\<exists>w \<in> set (ws[i := w']). ended (phase w)) \<longrightarrow> rest' = []"
proof
  assume "\<exists>w \<in> set (ws[i := w']). ended (phase w)"
  then obtain w where w: "w \<in> set (ws[i := w'])" "ended (phase w)" by blast
  from w(1) have "w = w' \<or> w \<in> set ws"
    using set_update_subset_insert [of ws i w'] by auto
  then show "rest' = []"
    using w(2) assms by blast
qed

lemma fetched_member:
  assumes "i < length ws" and "phase (ws ! i) = Got (Some l)"
  shows "(i, l) \<in> set (fetched ws)"
proof -
  have "(i, ws ! i) \<in> set (enumerate 0 ws)"
    using assms(1) by (auto simp add: in_set_enumerate_eq)
  then show ?thesis
    using assms(2) by (force simp add: fetched_def)
qed

lemma once_invI:
  assumes "signal_break t = 0"
      and "map snd (claimed t) @ lines_of (stdin_rest t) = lines_of inp"
      and "mset (claimed t) =
             mset (processed t) + mset (in_flight (workers t)) + mset (fetched (workers t))"
      and "line_count t + pending_count (workers t) =
             word_of_nat (length (processed t) + length (in_flight (workers t)))"
      and "(\<exists>w \<in> set (workers t). ended (phase w)) \<longrightarrow> stdin_rest t = []"
  shows "once_inv inp t"
  using assms by (simp add: once_inv_def)

lemma once_inv_step:
  assumes inv: "once_inv inp s"
      and good: "\<forall>l \<in> set (lines_of inp). (word_of_nat (length l) :: 32 word) \<noteq> - 1"
      and e: "e \<noteq> Sigint"
  shows "once_inv inp (step ext bloom m e s)"
proof -
  from e obtain j where ej: "e = Run j" by (cases e) simp_all
  show ?thesis
  proof (cases "crashed s = None \<and> j < length (workers s)")
    case False
    with inv ej show ?thesis by (simp add: step_idle)
  next
    case True
    then have j: "j < length (workers s)" by simp
    let ?ws = "workers s"
    let ?w = "?ws ! j"
    have st: "step ext bloom m e s = worker_step ext bloom m j s"
      using ej True by (simp add: step_def)
    from inv have k0: "signal_break s = 0"
      and k1: "map snd (claimed s) @ lines_of (stdin_rest s) = lines_of inp"
      and k2: "mset (claimed s) =
                 mset (processed s) + mset (in_flight ?ws) + mset (fetched ?ws)"
      and k3: "line_count s + pending_count ?ws =
                 word_of_nat (length (processed s) + length (in_flight ?ws))"
      and k4: "(\<exists>w \<in> set ?ws. ended (phase w)) \<longrightarrow> stdin_rest s = []"
      by (simp_all add: once_inv_def)
    note fl = in_flight_update [OF j]
    note fll = in_flight_update_length [OF j]
    note fe = fetched_update [OF j]
    note pc = pending_count_update [OF j]
    have wj: "?w \<in> set ?ws" using j by simp
    show ?thesis
    proof (cases "phase ?w")
      case AtTop
      show ?thesis
      proof (cases "getline (stdin_rest s)")
        case None
        then have eof: "stdin_rest s = []" by (simp add: getline_None_iff)
        let ?w' = "?w\<lparr>phase := Got None\<rparr>"
        have "step ext bloom m e s = s\<lparr>workers := ?ws[j := ?w']\<rparr>"
          unfolding st using AtTop eof by (rule worker_step_AtTop_eof)
        moreover have "mset (in_flight (?ws[j := ?w'])) = mset (in_flight ?ws)"
          using fl [of ?w'] AtTop by (simp add: busy_line_def)
        moreover have "length (in_flight (?ws[j := ?w'])) = length (in_flight ?ws)"
          using fll [of ?w'] AtTop by (simp add: busy_line_def)
        moreover have "mset (fetched (?ws[j := ?w'])) = mset (fetched ?ws)"
          using fe [of ?w'] AtTop by (simp add: got_line_def)
        moreover have "pending_count (?ws[j := ?w']) = pending_count ?ws"
          using pc [of ?w'] AtTop by simp
        ultimately show ?thesis
          using k0 k1 k2 k3 eof by (simp add: once_inv_def)
      next
        case (Some a)
        obtain l rest where a: "a = (l, rest)" by (cases a)
        let ?w' = "?w\<lparr>phase := Got (Some l)\<rparr>"
        have g: "getline (stdin_rest s) = Some (l, rest)" using Some a by simp
        have ne: "stdin_rest s \<noteq> []" using g by (auto simp add: getline_None_iff [symmetric])
        have "step ext bloom m e s =
                s\<lparr>stdin_rest := rest, workers := ?ws[j := ?w'], claimed := claimed s @ [(j, l)]\<rparr>"
          unfolding st using AtTop g by (rule worker_step_AtTop_line)
        moreover have "mset (in_flight (?ws[j := ?w'])) = mset (in_flight ?ws)"
          using fl [of ?w'] AtTop by (simp add: busy_line_def)
        moreover have "length (in_flight (?ws[j := ?w'])) = length (in_flight ?ws)"
          using fll [of ?w'] AtTop by (simp add: busy_line_def)
        moreover have "mset (fetched (?ws[j := ?w'])) = mset (fetched ?ws) + {#(j, l)#}"
          using fe [of ?w'] AtTop by (simp add: got_line_def)
        moreover have "pending_count (?ws[j := ?w']) = pending_count ?ws"
          using pc [of ?w'] AtTop by simp
        moreover have "map snd (claimed s) @ l # lines_of rest = lines_of inp"
          using k1 getline_lines_of [OF g] by simp
        moreover have "(\<exists>w \<in> set (?ws[j := ?w']). ended (phase w)) \<longrightarrow> rest = []"
          using k4 ne by (intro ended_update [where rest = "stdin_rest s"]) simp_all
        ultimately show ?thesis
          using k0 k2 k3 by (simp add: once_inv_def)
      qed
    next
      case (Got r)
      show ?thesis
      proof (cases r)
        case None
        let ?w' = "?w\<lparr>phase := Stopped\<rparr>"
        have ph: "phase ?w = Got None" using Got None by simp
        have "ended (phase ?w)" using ph by simp
        then have eof: "stdin_rest s = []" using k4 wj by blast
        have "step ext bloom m e s = s\<lparr>workers := ?ws[j := ?w']\<rparr>"
          unfolding st using ph by (rule worker_step_Got_eof)
        moreover have "mset (in_flight (?ws[j := ?w'])) = mset (in_flight ?ws)"
          using fl [of ?w'] ph by (simp add: busy_line_def)
        moreover have "length (in_flight (?ws[j := ?w'])) = length (in_flight ?ws)"
          using fll [of ?w'] ph by (simp add: busy_line_def)
        moreover have "mset (fetched (?ws[j := ?w'])) = mset (fetched ?ws)"
          using fe [of ?w'] ph by (simp add: got_line_def)
        moreover have "pending_count (?ws[j := ?w']) = pending_count ?ws"
          using pc [of ?w'] ph by simp
        ultimately show ?thesis
          using k0 k1 k2 k3 eof by (simp add: once_inv_def)
      next
        case (Some l)
        let ?w' = "?w\<lparr>phase := Busy l, my_line_count := my_line_count ?w + 1\<rparr>"
        have ph: "phase ?w = Got (Some l)" using Got Some by simp
        have "(j, l) \<in> set (fetched ?ws)"
          using j ph by (rule fetched_member)
        then have "(j, l) \<in># mset (claimed s)"
          by (simp add: k2)
        then have "l \<in> set (map snd (claimed s))"
          by force
        then have "l \<in> set (lines_of inp)"
          using k1 by (metis Un_iff set_append)
        then have gl: "(word_of_nat (length l) :: 32 word) \<noteq> - 1"
          using good by blast
        have steq: "step ext bloom m e s = s\<lparr>workers := ?ws[j := ?w']\<rparr>"
          unfolding st using ph gl k0 by (rule worker_step_Got_line)
        have f1: "mset (in_flight (?ws[j := ?w'])) = mset (in_flight ?ws) + {#(j, l)#}"
          using fl [of ?w'] ph by (simp add: busy_line_def)
        have f2: "length (in_flight (?ws[j := ?w'])) = length (in_flight ?ws) + 1"
          using fll [of ?w'] ph by (simp add: busy_line_def)
        have f3: "mset (fetched ?ws) = mset (fetched (?ws[j := ?w'])) + {#(j, l)#}"
          using fe [of ?w'] ph by (simp add: got_line_def)
        have f4: "pending_count (?ws[j := ?w']) = pending_count ?ws + 1"
          using pc [of ?w'] ph by simp
        have f5: "(\<exists>w \<in> set (?ws[j := ?w']). ended (phase w)) \<longrightarrow> stdin_rest s = []"
          using k4 by (intro ended_update [where rest = "stdin_rest s"]) simp_all
        show ?thesis
          unfolding steq
        proof (rule once_invI)
          show "signal_break (s\<lparr>workers := ?ws[j := ?w']\<rparr>) = 0"
            using k0 by simp
          show "map snd (claimed (s\<lparr>workers := ?ws[j := ?w']\<rparr>)) @
                  lines_of (stdin_rest (s\<lparr>workers := ?ws[j := ?w']\<rparr>)) = lines_of inp"
            using k1 by simp
          have "mset (claimed s) =
                  mset (processed s) + (mset (in_flight ?ws) + {#(j, l)#})
                    + mset (fetched (?ws[j := ?w']))"
            unfolding k2 f3 by (simp only: ac_simps)
          then show "mset (claimed (s\<lparr>workers := ?ws[j := ?w']\<rparr>)) =
                  mset (processed (s\<lparr>workers := ?ws[j := ?w']\<rparr>))
                    + mset (in_flight (workers (s\<lparr>workers := ?ws[j := ?w']\<rparr>)))
                    + mset (fetched (workers (s\<lparr>workers := ?ws[j := ?w']\<rparr>)))"
            by (simp add: f1)
          have "line_count s + (pending_count ?ws + 1) =
                  word_of_nat (length (processed s) + (length (in_flight ?ws) + 1))"
            using k3 by (simp add: add.assoc [symmetric])
          then show "line_count (s\<lparr>workers := ?ws[j := ?w']\<rparr>)
                    + pending_count (workers (s\<lparr>workers := ?ws[j := ?w']\<rparr>)) =
                  word_of_nat (length (processed (s\<lparr>workers := ?ws[j := ?w']\<rparr>))
                    + length (in_flight (workers (s\<lparr>workers := ?ws[j := ?w']\<rparr>))))"
            by (simp add: f2 f4)
          show "(\<exists>w \<in> set (workers (s\<lparr>workers := ?ws[j := ?w']\<rparr>)). ended (phase w)) \<longrightarrow>
                  stdin_rest (s\<lparr>workers := ?ws[j := ?w']\<rparr>) = []"
            using f5 by simp
        qed
      qed
    next
      case (Busy l)
      show ?thesis
      proof (cases "loop_body ext bloom m (pubkey ?w) l")
        case (Inl err)
        have "step ext bloom m e s = s\<lparr>crashed := Some err\<rparr>"
          unfolding st using Busy Inl by (rule worker_step_Busy_crash)
        then show ?thesis
          using inv by (simp add: once_inv_def)
      next
        case (Inr it)
        let ?w' = "?w\<lparr>phase := AtTop, pubkey := it_pubkey it\<rparr>"
        let ?t = "s\<lparr>workers := ?ws[j := ?w'], stdout_log := stdout_log s @ it_reported it,
                  processed := processed s @ [(j, l)]\<rparr>"
        have steq: "step ext bloom m e s = ?t"
          unfolding st using Busy Inr by (rule worker_step_Busy_pass)
        have f1: "mset (in_flight ?ws) = mset (in_flight (?ws[j := ?w'])) + {#(j, l)#}"
          using fl [of ?w'] Busy by (simp add: busy_line_def)
        have f2: "length (in_flight ?ws) = length (in_flight (?ws[j := ?w'])) + 1"
          using fll [of ?w'] Busy by (simp add: busy_line_def)
        have f3: "mset (fetched (?ws[j := ?w'])) = mset (fetched ?ws)"
          using fe [of ?w'] Busy by (simp add: got_line_def)
        have f4: "pending_count (?ws[j := ?w']) = pending_count ?ws"
          using pc [of ?w'] Busy by simp
        have f5: "(\<exists>w \<in> set (?ws[j := ?w']). ended (phase w)) \<longrightarrow> stdin_rest s = []"
          using k4 by (intro ended_update [where rest = "stdin_rest s"]) simp_all
        show ?thesis
          unfolding steq
        proof (rule once_invI)
          show "signal_break ?t = 0"
            using k0 by simp
          show "map snd (claimed ?t) @ lines_of (stdin_rest ?t) = lines_of inp"
            using k1 by simp
          have "mset (claimed s) =
                  (mset (processed s) + {#(j, l)#}) + mset (in_flight (?ws[j := ?w']))
                    + mset (fetched (?ws[j := ?w']))"
            unfolding k2 f1 f3 by (simp only: ac_simps)
          then show "mset (claimed ?t) =
                  mset (processed ?t) + mset (in_flight (workers ?t)) + mset (fetched (workers ?t))"
            by simp
          have "line_count s + pending_count ?ws =
                  word_of_nat ((length (processed s) + 1) + length (in_flight (?ws[j := ?w'])))"
            unfolding k3 f2 by (simp only: ac_simps)
          then show "line_count ?t + pending_count (workers ?t) =
                  word_of_nat (length (processed ?t) + length (in_flight (workers ?t)))"
            by (simp add: f4)
          show "(\<exists>w \<in> set (workers ?t). ended (phase w)) \<longrightarrow> stdin_rest ?t = []"
            using f5 by simp
        qed
      qed
    next
      case Stopped
      let ?w' = "?w\<lparr>phase := Done\<rparr>"
      have "ended (phase ?w)" using Stopped by simp
      then have eof: "stdin_rest s = []" using k4 wj by blast
      let ?t = "s\<lparr>line_count := line_count s + my_line_count ?w, workers := ?ws[j := ?w']\<rparr>"
      have steq: "step ext bloom m e s = ?t"
        unfolding st using Stopped by (rule worker_step_Stopped)
      have f1: "mset (in_flight (?ws[j := ?w'])) = mset (in_flight ?ws)"
        using fl [of ?w'] Stopped by (simp add: busy_line_def)
      have f2: "length (in_flight (?ws[j := ?w'])) = length (in_flight ?ws)"
        using fll [of ?w'] Stopped by (simp add: busy_line_def)
      have f3: "mset (fetched (?ws[j := ?w'])) = mset (fetched ?ws)"
        using fe [of ?w'] Stopped by (simp add: got_line_def)
      have f4: "pending_count ?ws = pending_count (?ws[j := ?w']) + my_line_count ?w"
        using pc [of ?w'] Stopped by simp
      show ?thesis
        unfolding steq
      proof (rule once_invI)
        show "signal_break ?t = 0"
          using k0 by simp
        show "map snd (claimed ?t) @ lines_of (stdin_rest ?t) = lines_of inp"
          using k1 by simp
        show "mset (claimed ?t) =
                mset (processed ?t) + mset (in_flight (workers ?t)) + mset (fetched (workers ?t))"
          using k2 by (simp add: f1 f3)
        have "(line_count s + my_line_count ?w) + pending_count (?ws[j := ?w']) =
                word_of_nat (length (processed s) + length (in_flight ?ws))"
          unfolding k3 [symmetric] f4 by (simp only: ac_simps)
        then show "line_count ?t + pending_count (workers ?t) =
                word_of_nat (length (processed ?t) + length (in_flight (workers ?t)))"
          by (simp add: f2)
        show "(\<exists>w \<in> set (workers ?t). ended (phase w)) \<longrightarrow> stdin_rest ?t = []"
          using eof by simp
      qed
    next
      case Done
      have "step ext bloom m e s = s"
        unfolding st using Done by (rule worker_step_Done)
      with inv show ?thesis by simp
    qed
  qed
qed


lemma in_flight_none:
  assumes "\<And>w l. w \<in> set ws \<Longrightarrow> phase w \<noteq> Busy l"
  shows "in_flight ws = []"
proof -
  have "\<forall>p \<in> set (enumerate 0 ws). \<forall>l. phase (snd p) \<noteq> Busy l"
    using assms by (auto simp add: enumerate_eq_zip dest: set_zip_rightD)
  then show ?thesis
    by (auto simp add: in_flight_def split: phase.splits)
qed

lemma fetched_none:
  assumes "\<And>w l. w \<in> set ws \<Longrightarrow> phase w \<noteq> Got (Some l)"
  shows "fetched ws = []"
proof -
  have "\<forall>p \<in> set (enumerate 0 ws). \<forall>l. phase (snd p) \<noteq> Got (Some l)"
    using assms by (auto simp add: enumerate_eq_zip dest: set_zip_rightD)
  then show ?thesis
    by (auto simp add: fetched_def split: phase.splits option.splits)
qed

lemma pending_count_zero:
  assumes "\<And>w. w \<in> set ws \<Longrightarrow> phase w = Done \<or> my_line_count w = 0"
  shows "pending_count ws = 0"
  using assms unfolding pending_count_def by (induction ws) auto

lemma once_inv_initial: "once_inv inp (initial ext inp n)"
proof (rule once_invI)
  let ?w = "\<lparr>phase = AtTop, my_line_count = 0,
             pubkey = take 96 (uninit_pubkey ext @ replicate 96 0)\<rparr>"
  have ws: "workers (initial ext inp n) = replicate n ?w"
    by (simp add: initial_def)
  have f: "in_flight (workers (initial ext inp n)) = []"
    unfolding ws by (rule in_flight_none) auto
  have g: "fetched (workers (initial ext inp n)) = []"
    unfolding ws by (rule fetched_none) auto
  have p: "pending_count (workers (initial ext inp n)) = 0"
    unfolding ws by (rule pending_count_zero) auto
  show "signal_break (initial ext inp n) = 0"
    by (simp add: initial_def)
  show "map snd (claimed (initial ext inp n)) @ lines_of (stdin_rest (initial ext inp n))
          = lines_of inp"
    by (simp add: initial_def)
  show "mset (claimed (initial ext inp n)) =
          mset (processed (initial ext inp n)) + mset (in_flight (workers (initial ext inp n)))
            + mset (fetched (workers (initial ext inp n)))"
    unfolding f g by (simp add: initial_def)
  show "line_count (initial ext inp n) + pending_count (workers (initial ext inp n)) =
          word_of_nat (length (processed (initial ext inp n))
            + length (in_flight (workers (initial ext inp n))))"
    unfolding f p by (simp add: initial_def)
  show "(\<exists>w \<in> set (workers (initial ext inp n)). ended (phase w)) \<longrightarrow>
          stdin_rest (initial ext inp n) = []"
    unfolding ws by auto
qed

lemma once_inv_exec:
  assumes "Sigint \<notin> set es"
      and "\<forall>l \<in> set (lines_of inp). (word_of_nat (length l) :: 32 word) \<noteq> - 1"
      and "once_inv inp s"
  shows "once_inv inp (exec ext bloom m es s)"
  using assms(1,3)
proof (induction es arbitrary: s)
  case Nil
  then show ?case by (simp add: exec_Nil)
next
  case (Cons e es)
  from Cons.prems have "e \<noteq> Sigint" "Sigint \<notin> set es" by auto
  with Cons.prems(2) assms(2) Cons.IH show ?case
    by (simp add: exec_Cons once_inv_step)
qed

lemma once_inv_all_done:
  assumes "once_inv inp t" and "all_done (workers t)" and "workers t \<noteq> []"
  shows "line_count t = word_of_nat (length (lines_of inp))"
    and "map snd (claimed t) = lines_of inp"
    and "mset (processed t) = mset (claimed t)"
proof -
  have dn: "phase w = Done" if "w \<in> set (workers t)" for w
    using assms(2) that by (simp add: all_done_def list_all_iff)
  have f: "in_flight (workers t) = []"
    by (rule in_flight_none) (simp add: dn)
  have g: "fetched (workers t) = []"
    by (rule fetched_none) (simp add: dn)
  have p: "pending_count (workers t) = 0"
    by (rule pending_count_zero) (simp add: dn)
  obtain w where "w \<in> set (workers t)"
    using assms(3) by (cases "workers t") auto
  then have "\<exists>w \<in> set (workers t). ended (phase w)"
    using dn by force
  then have eof: "stdin_rest t = []"
    using assms(1) by (simp add: once_inv_def)
  show c: "map snd (claimed t) = lines_of inp"
    using assms(1) eof by (simp add: once_inv_def)
  show m: "mset (processed t) = mset (claimed t)"
    using assms(1) by (simp add: once_inv_def f g)
  have "length (processed t) = length (claimed t)"
    using arg_cong [OF m, of size] by simp
  also have "\<dots> = length (lines_of inp)"
    using arg_cong [OF c, of length] by simp
  finally show "line_count t = word_of_nat (length (lines_of inp))"
    using assms(1) by (simp add: once_inv_def f p)
qed

text \<open>
  C5, as the code has it. In a run that no signal interrupts and that ends with exit status
  0, with at least one worker and no line whose length (newline included) is \<open>2^32 - 1\<close>
  modulo \<open>2^32\<close>: the lines taken out of the stream are the lines of the input, in order,
  each taken once by one worker; the passes completed are these same lines, each by the
  worker that took it; and \<open>line_count\<close>, an \<open>unsigned int\<close>, ends as the number of
  lines modulo \<open>2^32\<close>.
\<close>

theorem every_line_once:
  assumes "exit_status (main ext m argv inp sched) = Exit 0"
      and "Sigint \<notin> set sched"
      and "0 < omp_get_max_threads ext"
      and "\<forall>l \<in> set (lines_of inp). (word_of_nat (length l) :: 32 word) \<noteq> - 1"
  shows "line_count (final (main ext m argv inp sched)) = word_of_nat (length (lines_of inp))
       \<and> unat (line_count (final (main ext m argv inp sched))) = length (lines_of inp) mod 2 ^ 32
       \<and> map snd (claimed (final (main ext m argv inp sched))) = lines_of inp
       \<and> mset (processed (final (main ext m argv inp sched)))
           = mset (claimed (final (main ext m argv inp sched)))"
proof -
  let ?r = "main ext m argv inp sched"
  let ?F = "bloom_open ext (argv ! 1)"
  let ?init = "initial ext inp (omp_get_max_threads ext)"
  have argc: "int (length argv) = 2"
    using assms(1) by (auto simp add: main_def split: if_splits)
  have t: "final ?r = exec ext ?F m sched ?init"
    using argc by (rule exit_status_main(2))
  have "exit_status ?r = (case crashed (final ?r) of Some e \<Rightarrow> Crash e
          | None \<Rightarrow> if all_done (workers (final ?r)) then Exit 0 else Running)"
    using argc by (rule exit_status_main(1))
  with assms(1) have ad: "all_done (workers (final ?r))"
    by (simp split: option.splits if_splits)
  have "length (workers (final ?r)) = omp_get_max_threads ext"
    unfolding t by (simp add: length_workers_exec initial_def)
  with assms(3) have ne: "workers (final ?r) \<noteq> []"
    by auto
  have inv: "once_inv inp (final ?r)"
    unfolding t using assms(2,4) once_inv_initial by (rule once_inv_exec)
  note fin = once_inv_all_done [OF inv ad ne]
  have "unat (line_count (final ?r)) = length (lines_of inp) mod 2 ^ 32"
    unfolding fin(1) by (simp add: unat_of_nat)
  with fin show ?thesis by simp
qed

theorem every_line_once_witness:
  "exit_status (main test_collab Hexwallet [''brainflayer'', ''one'']
      (''1'' @ [NL] @ ''0'' @ [NL]) (replicate 9 (Run 0) @ replicate 3 (Run 1))) = Exit 0
   \<and> Sigint \<notin> set (replicate 9 (Run 0) @ replicate 3 (Run 1))
   \<and> line_count (final (main test_collab Hexwallet [''brainflayer'', ''one'']
      (''1'' @ [NL] @ ''0'' @ [NL]) (replicate 9 (Run 0) @ replicate 3 (Run 1)))) = 2
   \<and> map snd (claimed (final (main test_collab Hexwallet [''brainflayer'', ''one'']
      (''1'' @ [NL] @ ''0'' @ [NL]) (replicate 9 (Run 0) @ replicate 3 (Run 1)))))
       = [''1'' @ [NL], ''0'' @ [NL]]"
proof -
  let ?inp = "''1'' @ [NL] @ ''0'' @ [NL]"
  let ?sched = "replicate 9 (Run 0) @ replicate 3 (Run 1)"
  have 1: "exit_status (main test_collab Hexwallet [''brainflayer'', ''one''] ?inp ?sched) = Exit 0"
    by code_simp
  have 2: "Sigint \<notin> set ?sched"
    by simp
  have 3: "0 < omp_get_max_threads test_collab"
    by (simp add: test_collab_def)
  have l: "lines_of ?inp = [''1'' @ [NL], ''0'' @ [NL]]"
    by simp
  have 4: "\<forall>l \<in> set (lines_of ?inp). (word_of_nat (length l) :: 32 word) \<noteq> - 1"
    unfolding l by simp
  from every_line_once [OF 1 2 3 4] 1 2 show ?thesis
    unfolding l by simp
qed

subsection \<open>Inputs that overflow the counters\<close>

lemma getline_one_line: "NL \<notin> set p \<Longrightarrow> getline (p @ [NL]) = Some (p @ [NL], [])"
proof -
  assume p: "NL \<notin> set p"
  then have "dropWhile (\<lambda>c. c \<noteq> NL) (p @ [NL]) = [NL]"
    by (induction p) auto
  moreover from p have "takeWhile (\<lambda>c. c \<noteq> NL) (p @ [NL]) = p"
    by (induction p) auto
  ultimately show ?thesis
    by (simp add: getline_def)
qed

lemma long_line_run:
  assumes "getline inp = Some (inp, [])"
      and "(word_of_nat (length inp) :: 32 word) = - 1"
      and "int (length argv) = 2"
      and "omp_get_max_threads ext = 2"
  shows "exit_status (main ext m argv inp [Run 0, Run 0, Run 0, Run 1, Run 1, Run 1]) = Exit 0
       \<and> line_count (final (main ext m argv inp [Run 0, Run 0, Run 0, Run 1, Run 1, Run 1])) = 0
       \<and> claimed (final (main ext m argv inp [Run 0, Run 0, Run 0, Run 1, Run 1, Run 1]))
           = [(0, inp)]
       \<and> processed (final (main ext m argv inp [Run 0, Run 0, Run 0, Run 1, Run 1, Run 1])) = []"
  using assms
  by (simp add: main_def Let_def initial_def exec_def step_def worker_step_def all_done_def
                getline_def eval_nat_numeral)


lemma lines_of_replicate_NL: "lines_of (replicate k NL) = replicate k [NL]"
  by (induction k) simp_all

lemma getline_NL: "getline (NL # r) = Some ([NL], r)"
  by (simp add: getline_def)

lemma loop_body_empty_line: "\<exists>it. loop_body ext bloom m buf [NL] = Inr it"
proof -
  have "trim_line [NL] = Inr ([NUL, NUL], 0)"
    by (simp add: trim_line_def strlen_def)
  moreover obtain it where "pipeline ext bloom m buf [NUL, NUL] 0 = Inr it"
    using pipeline_total [OF make_secret_empty] by blast
  ultimately show ?thesis
    by (simp add: loop_body_def)
qed

lemma empty_lines_run:
  assumes "crashed s = None" and "signal_break s = 0" and "0 < length (workers s)"
      and "phase (workers s ! 0) = AtTop" and "stdin_rest s = replicate k NL"
  shows "crashed (exec ext bloom m (replicate (3 * k) (Run 0)) s) = None
       \<and> signal_break (exec ext bloom m (replicate (3 * k) (Run 0)) s) = 0
       \<and> stdin_rest (exec ext bloom m (replicate (3 * k) (Run 0)) s) = []
       \<and> line_count (exec ext bloom m (replicate (3 * k) (Run 0)) s) = line_count s
       \<and> length (workers (exec ext bloom m (replicate (3 * k) (Run 0)) s)) = length (workers s)
       \<and> tl (workers (exec ext bloom m (replicate (3 * k) (Run 0)) s)) = tl (workers s)
       \<and> phase (workers (exec ext bloom m (replicate (3 * k) (Run 0)) s) ! 0) = AtTop
       \<and> my_line_count (workers (exec ext bloom m (replicate (3 * k) (Run 0)) s) ! 0)
           = my_line_count (workers s ! 0) + word_of_nat k"
  using assms
proof (induction k arbitrary: s)
  case 0
  then show ?case by (simp add: exec_Nil)
next
  case (Suc k)
  let ?w = "workers s ! 0"
  obtain it where it: "loop_body ext bloom m (pubkey ?w) [NL] = Inr it"
    using loop_body_empty_line by blast
  let ?s3 = "s\<lparr>stdin_rest := replicate k NL,
               workers := (workers s)[0 :=
                 \<lparr>phase = AtTop, my_line_count = my_line_count ?w + 1, pubkey = it_pubkey it\<rparr>],
               stdout_log := stdout_log s @ it_reported it,
               claimed := claimed s @ [(0, [NL])],
               processed := processed s @ [(0, [NL])]\<rparr>"
  have three: "exec ext bloom m [Run 0, Run 0, Run 0] s = ?s3"
    using Suc.prems it
    by (simp add: exec_def step_def worker_step_def Let_def getline_NL worker_updates)
  have split: "replicate (3 * Suc k) (Run 0) = [Run 0, Run 0, Run 0] @ replicate (3 * k) (Run 0)"
    by (simp add: replicate_add [symmetric] eval_nat_numeral)
  have run: "exec ext bloom m (replicate (3 * Suc k) (Run 0)) s
             = exec ext bloom m (replicate (3 * k) (Run 0)) ?s3"
    unfolding split exec_append three ..
  have tl3: "tl (workers ?s3) = tl (workers s)"
    using Suc.prems(3) by (cases "workers s") simp_all
  have ih: "crashed (exec ext bloom m (replicate (3 * k) (Run 0)) ?s3) = None
       \<and> signal_break (exec ext bloom m (replicate (3 * k) (Run 0)) ?s3) = 0
       \<and> stdin_rest (exec ext bloom m (replicate (3 * k) (Run 0)) ?s3) = []
       \<and> line_count (exec ext bloom m (replicate (3 * k) (Run 0)) ?s3) = line_count ?s3
       \<and> length (workers (exec ext bloom m (replicate (3 * k) (Run 0)) ?s3)) = length (workers ?s3)
       \<and> tl (workers (exec ext bloom m (replicate (3 * k) (Run 0)) ?s3)) = tl (workers ?s3)
       \<and> phase (workers (exec ext bloom m (replicate (3 * k) (Run 0)) ?s3) ! 0) = AtTop
       \<and> my_line_count (workers (exec ext bloom m (replicate (3 * k) (Run 0)) ?s3) ! 0)
           = my_line_count (workers ?s3 ! 0) + word_of_nat k"
    using Suc.prems by (intro Suc.IH) simp_all
  have a: "line_count ?s3 = line_count s"
    by simp
  have b: "length (workers ?s3) = length (workers s)"
    by simp
  have c: "my_line_count (workers ?s3 ! 0) + word_of_nat k
           = my_line_count ?w + word_of_nat (Suc k)"
    using Suc.prems(3) by simp
  show ?case
    unfolding run using ih by (simp only: a b c tl3)
qed


lemma many_lines_run:
  assumes "int (length argv) = 2" and "omp_get_max_threads ext = 2"
  shows "exit_status (main ext m argv (replicate k NL)
           (replicate (3 * k) (Run 0) @ [Run 0, Run 0, Run 0, Run 1, Run 1, Run 1])) = Exit 0
       \<and> line_count (final (main ext m argv (replicate k NL)
           (replicate (3 * k) (Run 0) @ [Run 0, Run 0, Run 0, Run 1, Run 1, Run 1])))
           = word_of_nat k"
proof -
  define F where "F = bloom_open ext (argv ! 1)"
  define t where "t = exec ext F m (replicate (3 * k) (Run 0))
                        (initial ext (replicate k NL) (omp_get_max_threads ext))"
  let ?w1 = "\<lparr>phase = AtTop, my_line_count = 0,
              pubkey = take 96 (uninit_pubkey ext @ replicate 96 0)\<rparr>"
  let ?init = "initial ext (replicate k NL) (omp_get_max_threads ext)"
  let ?tail = "[Run 0, Run 0, Run 0, Run 1, Run 1, Run 1]"
  let ?r = "main ext m argv (replicate k NL) (replicate (3 * k) (Run 0) @ ?tail)"
  have ws: "workers ?init = [?w1, ?w1]"
    by (simp add: initial_def assms(2) eval_nat_numeral)
  have t: "crashed t = None" "signal_break t = 0" "stdin_rest t = []"
      "line_count t = 0" "length (workers t) = 2" "tl (workers t) = [?w1]"
      "phase (workers t ! 0) = AtTop" "my_line_count (workers t ! 0) = word_of_nat k"
    unfolding t_def using empty_lines_run [of ?init k ext F m]
    by (simp_all add: ws) (simp_all add: initial_def)
  obtain w0 where w: "workers t = [w0, ?w1]"
    using t(5,6) by (cases "workers t") auto
  have w0: "phase w0 = AtTop" "my_line_count w0 = word_of_nat k"
    using t(7,8) by (simp_all add: w)
  have fin: "final ?r = exec ext F m ?tail t"
    unfolding t_def F_def using assms(1) by (simp add: exit_status_main(2) exec_append)
  have res: "crashed (exec ext F m ?tail t) = None
      \<and> all_done (workers (exec ext F m ?tail t))
      \<and> line_count (exec ext F m ?tail t) = word_of_nat k"
    using t(1,2,3,4) w0
    by (simp add: exec_def step_def worker_step_def Let_def w getline_def all_done_def)
  have st: "exit_status ?r = (case crashed (final ?r) of Some e \<Rightarrow> Crash e
          | None \<Rightarrow> if all_done (workers (final ?r)) then Exit 0 else Running)"
    using assms(1) by (rule exit_status_main(1))
  show ?thesis
    unfolding st fin using res by simp
qed

text \<open>
  C5 as it is stated fails on inputs that overflow an \<open>unsigned int\<close>. With \<open>2^32\<close> lines
  (here empty ones, all taken by the first of two workers) the run ends with exit status 0
  and \<open>line_count\<close> is 0. With a single line of \<open>2^32 - 1\<close> bytes the worker that
  reads it takes its length for the \<open>-1\<close> of the end of the stream and leaves the loop:
  the line is consumed, never processed and not counted.
\<close>

theorem every_line_once_counterexample:
  "exit_status (main test_collab Brainwallet [''brainflayer'', ''one''] (replicate (2 ^ 32) NL)
     (replicate (3 * 2 ^ 32) (Run 0) @ [Run 0, Run 0, Run 0, Run 1, Run 1, Run 1])) = Exit 0
   \<and> length (lines_of (replicate (2 ^ 32) NL)) = 2 ^ 32
   \<and> line_count (final (main test_collab Brainwallet [''brainflayer'', ''one'']
       (replicate (2 ^ 32) NL)
       (replicate (3 * 2 ^ 32) (Run 0) @ [Run 0, Run 0, Run 0, Run 1, Run 1, Run 1]))) = 0
   \<and> exit_status (main test_collab Brainwallet [''brainflayer'', ''one'']
       (replicate (2 ^ 32 - 2) CHR ''a'' @ [NL])
       [Run 0, Run 0, Run 0, Run 1, Run 1, Run 1]) = Exit 0
   \<and> lines_of (replicate (2 ^ 32 - 2) CHR ''a'' @ [NL]) = [replicate (2 ^ 32 - 2) CHR ''a'' @ [NL]]
   \<and> line_count (final (main test_collab Brainwallet [''brainflayer'', ''one'']
       (replicate (2 ^ 32 - 2) CHR ''a'' @ [NL])
       [Run 0, Run 0, Run 0, Run 1, Run 1, Run 1])) = 0
   \<and> processed (final (main test_collab Brainwallet [''brainflayer'', ''one'']
       (replicate (2 ^ 32 - 2) CHR ''a'' @ [NL])
       [Run 0, Run 0, Run 0, Run 1, Run 1, Run 1])) = []"
proof -
  let ?argv = "[''brainflayer'', ''one'']"
  have argc: "int (length ?argv) = 2"
    by simp
  have pool: "omp_get_max_threads test_collab = 2"
    by (simp add: test_collab_def)
  let ?long = "replicate (2 ^ 32 - 2) CHR ''a'' @ [NL]"
  have nl: "NL \<notin> set (replicate (2 ^ 32 - 2) CHR ''a'')"
    by simp
  have g: "getline ?long = Some (?long, [])"
    using nl by (rule getline_one_line)
  have len: "(word_of_nat (length ?long) :: 32 word) = - 1"
    by simp
  have one: "lines_of ?long = [?long]"
    using lines_of_first_line [OF nl, of "[]"] by simp
  have n: "length (lines_of (replicate (2 ^ 32) NL)) = 2 ^ 32"
    by (simp add: lines_of_replicate_NL)
  have z: "(word_of_nat (2 ^ 32) :: 32 word) = 0"
    by simp
  from many_lines_run [OF argc pool, of Brainwallet "2 ^ 32"]
       long_line_run [OF g len argc pool, of Brainwallet] n one
  show ?thesis
    unfolding z by (intro conjI) (elim conjE; assumption)+
qed

section \<open>Shutdown\<close>


lemma loop_body_passes:
  assumes "loop_body ext bloom m buf l = Inr it"
  shows "passes ext m l"
  using assms
  by (auto simp add: passes_def loop_body_def pipeline_def Let_def
           split: sum.splits prod.splits)
















section \<open>Empty lines\<close>

lemma loop_body_NL:
  "loop_body ext bloom m buf [NL] =
     (let secret = (case m of Brainwallet \<Rightarrow> SHA256 ext [] | Warpwallet \<Rightarrow> warpwallet ext []
                    | Hexwallet \<Rightarrow> replicate 32 0);
          pubkey1 = (case secp256k1_ecdsa_pubkey_create ext secret of
                       None \<Rightarrow> buf | Some key \<Rightarrow> write_at buf 0 key);
          hash160_uncomp = RIPEMD160 ext (SHA256 ext (take 65 pubkey1));
          pubkey2 = pubkey1[0 := 0x02 OR (pubkey1 ! 64 AND 0x01)];
          hash160_comp = RIPEMD160 ext (SHA256 ext (take 33 pubkey2))
      in Inr \<lparr>it_secret = secret, it_pubkey = pubkey2,
               it_uncompressed = take 65 pubkey1, it_hash160_uncomp = hash160_uncomp,
               it_compressed = take 33 pubkey2, it_hash160_comp = hash160_comp,
               it_reported =
                 (if bloom hash160_uncomp
                  then [\<lparr>input_word = [], privkey_secret = secret,
                         pubkey_hash = hash160_uncomp, compressed = 0\<rparr>] else []) @
                 (if bloom hash160_comp
                  then [\<lparr>input_word = [], privkey_secret = secret,
                         pubkey_hash = hash160_comp, compressed = 1\<rparr>] else [])\<rparr>)"
proof -
  have t: "trim_line [NL] = Inr ([NUL, NUL], 0)"
    by (simp add: trim_line_def strlen_def)
  have d: "display [NUL, NUL] secret h c =
             \<lparr>input_word = [], privkey_secret = secret, pubkey_hash = h, compressed = c\<rparr>"
    for secret h c
    by (simp add: display_def strlen_def)
  have ms: "make_secret ext m [NUL, NUL] 0 =
     Inr (case m of Brainwallet \<Rightarrow> SHA256 ext [] | Warpwallet \<Rightarrow> warpwallet ext []
          | Hexwallet \<Rightarrow> replicate 32 0)"
    using make_secret_empty [of ext m] by simp
  show ?thesis
    by (simp add: loop_body_def t pipeline_def ms Let_def d)
qed


lemma empty_line_steps:
  assumes "crashed s = None" and "i < length (workers s)"
      and "phase (workers s ! i) = Got (Some [NL])" and "signal_break s = 0"
      and "loop_body ext bloom m (pubkey (workers s ! i)) [NL] = Inr it"
  shows "exec ext bloom m [Run i, Run i] s =
           s\<lparr>workers := (workers s)[i :=
                 \<lparr>phase = AtTop, my_line_count = my_line_count (workers s ! i) + 1,
                  pubkey = it_pubkey it\<rparr>],
             stdout_log := stdout_log s @ it_reported it,
             processed := processed s @ [(i, [NL])]\<rparr>"
    and "stdin_rest s = [] \<Longrightarrow>
         exec ext bloom m [Run i, Run i, Run i, Run i, Run i] s =
           s\<lparr>workers := (workers s)[i :=
                 \<lparr>phase = Done, my_line_count = my_line_count (workers s ! i) + 1,
                  pubkey = it_pubkey it\<rparr>],
             stdout_log := stdout_log s @ it_reported it,
             processed := processed s @ [(i, [NL])],
             line_count := line_count s + (my_line_count (workers s ! i) + 1)\<rparr>"
proof -
  let ?w = "workers s ! i"
  let ?s1 = "s\<lparr>workers := (workers s)[i := ?w\<lparr>phase := Busy [NL],
                                               my_line_count := my_line_count ?w + 1\<rparr>]\<rparr>"
  let ?s2 = "s\<lparr>workers := (workers s)[i :=
                 \<lparr>phase = AtTop, my_line_count = my_line_count ?w + 1,
                  pubkey = it_pubkey it\<rparr>],
             stdout_log := stdout_log s @ it_reported it,
             processed := processed s @ [(i, [NL])]\<rparr>"
  have s1: "step ext bloom m (Run i) s = ?s1"
    using assms(1-4) by (simp add: step_Run worker_step_def Let_def)
  have s2: "step ext bloom m (Run i) ?s1 = ?s2"
    using assms(1,2,5) by (simp add: step_def worker_step_def Let_def worker_updates)
  show two: "exec ext bloom m [Run i, Run i] s = ?s2"
    by (simp add: exec_def s1 s2)
  assume eof: "stdin_rest s = []"
  let ?s3 = "?s2\<lparr>workers := (workers s)[i :=
                 \<lparr>phase = Got None, my_line_count = my_line_count ?w + 1,
                  pubkey = it_pubkey it\<rparr>]\<rparr>"
  let ?s4 = "?s2\<lparr>workers := (workers s)[i :=
                 \<lparr>phase = Stopped, my_line_count = my_line_count ?w + 1,
                  pubkey = it_pubkey it\<rparr>]\<rparr>"
  let ?s5 = "?s2\<lparr>workers := (workers s)[i :=
                 \<lparr>phase = Done, my_line_count = my_line_count ?w + 1,
                  pubkey = it_pubkey it\<rparr>],
               line_count := line_count s + (my_line_count ?w + 1)\<rparr>"
  have s3: "step ext bloom m (Run i) ?s2 = ?s3"
    using assms(1,2) eof by (simp add: step_def worker_step_def Let_def getline_def)
  have s4: "step ext bloom m (Run i) ?s3 = ?s4"
    using assms(1,2) by (simp add: step_def worker_step_def Let_def)
  have s5: "step ext bloom m (Run i) ?s4 = ?s5"
    using assms(1,2) by (simp add: step_def worker_step_def Let_def)
  have "exec ext bloom m [Run i, Run i, Run i, Run i, Run i] s = ?s5"
    by (simp only: exec_def fold_simps s1 s2 s3 s4 s5 o_apply)
  then show "exec ext bloom m [Run i, Run i, Run i, Run i, Run i] s =
           s\<lparr>workers := (workers s)[i :=
                 \<lparr>phase = Done, my_line_count = my_line_count (workers s ! i) + 1,
                  pubkey = it_pubkey it\<rparr>],
             stdout_log := stdout_log s @ it_reported it,
             processed := processed s @ [(i, [NL])],
             line_count := line_count s + (my_line_count (workers s ! i) + 1)\<rparr>"
    by simp
qed


lemma empty_lines_counted:
  assumes "exit_status (main ext m argv inp sched) = Exit 0"
      and "Sigint \<notin> set sched"
      and "0 < omp_get_max_threads ext"
      and "\<forall>l \<in> set (lines_of inp). (word_of_nat (length l) :: 32 word) \<noteq> - 1"
  shows "line_count (final (main ext m argv inp sched)) =
           word_of_nat (length (filter (\<lambda>l. l = [NL]) (lines_of inp))
                        + length (filter (\<lambda>l. l \<noteq> [NL]) (lines_of inp)))"
    and "count_list (map snd (processed (final (main ext m argv inp sched)))) [NL] =
           count_list (lines_of inp) [NL]"
proof -
  let ?r = "main ext m argv inp sched"
  have argc: "int (length argv) = 2"
    using assms(1) by (auto simp add: main_def split: if_splits)
  have t: "final ?r = exec ext (bloom_open ext (argv ! 1)) m sched
                        (initial ext inp (omp_get_max_threads ext))"
    using argc by (rule exit_status_main(2))
  have "exit_status ?r = (case crashed (final ?r) of Some e \<Rightarrow> Crash e
          | None \<Rightarrow> if all_done (workers (final ?r)) then Exit 0 else Running)"
    using argc by (rule exit_status_main(1))
  with assms(1) have ad: "all_done (workers (final ?r))"
    by (simp split: option.splits if_splits)
  have "length (workers (final ?r)) = omp_get_max_threads ext"
    unfolding t by (simp add: length_workers_exec initial_def)
  with assms(3) have ne: "workers (final ?r) \<noteq> []"
    by auto
  have inv: "once_inv inp (final ?r)"
    unfolding t using assms(2,4) once_inv_initial by (rule once_inv_exec)
  note fin = once_inv_all_done [OF inv ad ne]
  show "line_count (final ?r) =
           word_of_nat (length (filter (\<lambda>l. l = [NL]) (lines_of inp))
                        + length (filter (\<lambda>l. l \<noteq> [NL]) (lines_of inp)))"
    unfolding fin(1) by (simp only: sum_length_filter_compl)
  have "mset (map snd (processed (final ?r))) = mset (map snd (claimed (final ?r)))"
    using fin(3) by (metis mset_map)
  then have "mset (map snd (processed (final ?r))) = mset (lines_of inp)"
    by (simp only: fin(2))
  then have "count (mset (map snd (processed (final ?r)))) [NL] = count (mset (lines_of inp)) [NL]"
    by simp
  then show "count_list (map snd (processed (final ?r))) [NL] = count_list (lines_of inp) [NL]"
    by (simp only: count_mset)
qed

text \<open>
  C10. A worker that holds the line made of a newline only, with no signal seen, counts
  it and works on it like any other line. The candidate is the empty string: the secret is
  derived from no bytes, the curve library is called on it, the 65 and the 33 bytes of the
  \<open>pubkey\<close> array are hashed and both hashes are looked up in the filter, with the empty
  word in every record printed, and the line is logged as processed with the worker's
  counter one higher. When the stream has ended, the worker's next three steps add that
  counter, the empty line included, to \<open>line_count\<close>. In every run that no signal
  interrupts and that ends with status 0, \<open>line_count\<close> is the number of empty lines plus
  the number of other lines (modulo \<open>2^32\<close>), and the empty lines are processed as often
  as the input has them.
\<close>

theorem empty_line_is_a_candidate:
  assumes "crashed s = None" and "i < length (workers s)"
      and "phase (workers s ! i) = Got (Some [NL])" and "signal_break s = 0"
  shows "let w = workers s ! i;
             secret = (case m of Brainwallet \<Rightarrow> SHA256 ext [] | Warpwallet \<Rightarrow> warpwallet ext []
                       | Hexwallet \<Rightarrow> replicate 32 0);
             pubkey1 = (case secp256k1_ecdsa_pubkey_create ext secret of
                          None \<Rightarrow> pubkey w | Some key \<Rightarrow> write_at (pubkey w) 0 key);
             hash160_uncomp = RIPEMD160 ext (SHA256 ext (take 65 pubkey1));
             pubkey2 = pubkey1[0 := 0x02 OR (pubkey1 ! 64 AND 0x01)];
             hash160_comp = RIPEMD160 ext (SHA256 ext (take 33 pubkey2));
             reported =
               (if bloom hash160_uncomp
                then [\<lparr>input_word = [], privkey_secret = secret,
                       pubkey_hash = hash160_uncomp, compressed = 0\<rparr>] else []) @
               (if bloom hash160_comp
                then [\<lparr>input_word = [], privkey_secret = secret,
                       pubkey_hash = hash160_comp, compressed = 1\<rparr>] else [])
         in trim_line [NL] = Inr ([NUL, NUL], 0)
          \<and> make_secret ext m [NUL, NUL] 0 = Inr secret
          \<and> exec ext bloom m [Run i, Run i] s =
               s\<lparr>workers := (workers s)[i :=
                     \<lparr>phase = AtTop, my_line_count = my_line_count w + 1, pubkey = pubkey2\<rparr>],
                 stdout_log := stdout_log s @ reported,
                 processed := processed s @ [(i, [NL])]\<rparr>
          \<and> (stdin_rest s = [] \<longrightarrow>
               exec ext bloom m [Run i, Run i, Run i, Run i, Run i] s =
                 s\<lparr>workers := (workers s)[i :=
                       \<lparr>phase = Done, my_line_count = my_line_count w + 1, pubkey = pubkey2\<rparr>],
                   stdout_log := stdout_log s @ reported,
                   processed := processed s @ [(i, [NL])],
                   line_count := line_count s + (my_line_count w + 1)\<rparr>)
          \<and> (exit_status (main ext m argv inp sched) = Exit 0 \<and> Sigint \<notin> set sched
               \<and> 0 < omp_get_max_threads ext
               \<and> (\<forall>l \<in> set (lines_of inp). (word_of_nat (length l) :: 32 word) \<noteq> - 1)
              \<longrightarrow> line_count (final (main ext m argv inp sched)) =
                    word_of_nat (length (filter (\<lambda>l. l = [NL]) (lines_of inp))
                                 + length (filter (\<lambda>l. l \<noteq> [NL]) (lines_of inp)))
                \<and> count_list (map snd (processed (final (main ext m argv inp sched)))) [NL]
                    = count_list (lines_of inp) [NL])"
proof -
  let ?w = "workers s ! i"
  have t: "trim_line [NL] = Inr ([NUL, NUL], 0)"
    by (simp add: trim_line_def strlen_def)
  have ms: "make_secret ext m [NUL, NUL] 0 =
     Inr (case m of Brainwallet \<Rightarrow> SHA256 ext [] | Warpwallet \<Rightarrow> warpwallet ext []
          | Hexwallet \<Rightarrow> replicate 32 0)"
    using make_secret_empty [of ext m] by simp
  obtain it where lb: "loop_body ext bloom m (pubkey ?w) [NL] = Inr it"
    using loop_body_NL [of ext bloom m "pubkey ?w"] by (simp add: Let_def)
  note steps = empty_line_steps [OF assms lb]
  note run = empty_lines_counted [of ext m argv inp sched]
  from lb have it: "Inr it = loop_body ext bloom m (pubkey ?w) [NL]"
    by simp
  show ?thesis
    using t ms steps run
    unfolding it [unfolded loop_body_NL Let_def, THEN Inr_inject] Let_def
    by (simp only: simp_thms iteration.simps) blast
qed


theorem empty_line_is_a_candidate_witness:
  "phase (workers (exec test_collab (bloom_open test_collab ''one'') Brainwallet [Run 0]
                     (initial test_collab [NL] 2)) ! 0) = Got (Some [NL])
   \<and> stdin_rest (exec test_collab (bloom_open test_collab ''one'') Brainwallet [Run 0]
                     (initial test_collab [NL] 2)) = []
   \<and> processed (exec test_collab (bloom_open test_collab ''one'') Brainwallet [Run 0, Run 0]
                  (exec test_collab (bloom_open test_collab ''one'') Brainwallet [Run 0]
                     (initial test_collab [NL] 2))) = [(0, [NL])]
   \<and> line_count (exec test_collab (bloom_open test_collab ''one'') Brainwallet
                  [Run 0, Run 0, Run 0, Run 0, Run 0]
                  (exec test_collab (bloom_open test_collab ''one'') Brainwallet [Run 0]
                     (initial test_collab [NL] 2))) = 1
   \<and> exit_status (main test_collab Brainwallet [''brainflayer'', ''one''] [NL]
                    (replicate 6 (Run 0) @ replicate 3 (Run 1))) = Exit 0
   \<and> line_count (final (main test_collab Brainwallet [''brainflayer'', ''one''] [NL]
                    (replicate 6 (Run 0) @ replicate 3 (Run 1)))) = 1"
proof -
  let ?F = "bloom_open test_collab ''one''"
  let ?s = "exec test_collab ?F Brainwallet [Run 0] (initial test_collab [NL] 2)"
  let ?argv = "[''brainflayer'', ''one'']"
  let ?sched = "replicate 6 (Run 0) @ replicate 3 (Run 1)"
  have 1: "crashed ?s = None" by code_simp
  have 2: "0 < length (workers ?s)" by code_simp
  have 3: "phase (workers ?s ! 0) = Got (Some [NL])" by code_simp
  have 4: "signal_break ?s = 0" by code_simp
  have eof: "stdin_rest ?s = []" by code_simp
  have 5: "processed ?s = []" by code_simp
  have 6: "my_line_count (workers ?s ! 0) = 0" by code_simp
  have 7: "line_count ?s = 0" by code_simp
  have ex: "exit_status (main test_collab Brainwallet ?argv [NL] ?sched) = Exit 0" by code_simp
  have ns: "Sigint \<notin> set ?sched" by simp
  have pool: "0 < omp_get_max_threads test_collab" by (simp add: test_collab_def)
  have good: "\<forall>l \<in> set (lines_of [NL]). (word_of_nat (length l) :: 32 word) \<noteq> - 1" by simp
  note inst = empty_line_is_a_candidate [where s = ?s and i = 0 and ext = test_collab
      and bloom = ?F and m = Brainwallet and argv = ?argv and inp = "[NL]" and sched = ?sched,
      OF 1 2 3 4, unfolded Let_def]
  note two = inst [THEN conjunct2, THEN conjunct2, THEN conjunct1]
  note five = inst [THEN conjunct2, THEN conjunct2, THEN conjunct2, THEN conjunct1, THEN mp,
      OF eof]
  note run = inst [THEN conjunct2, THEN conjunct2, THEN conjunct2, THEN conjunct2, THEN mp,
      OF conjI [OF ex conjI [OF ns conjI [OF pool good]]], THEN conjunct1]
  have a: "processed (exec test_collab ?F Brainwallet [Run 0, Run 0] ?s) = [(0, [NL])]"
    unfolding two by (simp add: 5)
  have b: "line_count (exec test_collab ?F Brainwallet [Run 0, Run 0, Run 0, Run 0, Run 0] ?s) = 1"
    unfolding five by (simp add: 6 7)
  have c: "line_count (final (main test_collab Brainwallet ?argv [NL] ?sched)) = 1"
    unfolding run by simp
  from 3 eof a b ex c show ?thesis
    by (intro conjI)
qed

end
